theory Spec2Isabelle
  imports Complex_Main
begin

section \<open>Python values shared by the modules\<close>

text \<open>
  The exceptions the modelled functions can meet. \<open>TimeoutException\<close> is a subclass of
  Selenium's \<open>WebDriverException\<close>; \<open>OtherException\<close> stands for every other subclass of
  \<open>Exception\<close>.
\<close>

datatype py_exn =
    AttributeError
  | WebDriverException
  | TimeoutException
  | ZeroDivisionError
  | ValueError
  | OSError
  | OtherException

text \<open>
  The values stored in the dictionaries that \<open>extract_images_info\<close> builds: booleans
  (\<open>has_alt\<close>, \<open>empty_alt\<close>, \<open>is_background\<close>) and strings (everything else).
\<close>

datatype py_val = PyBool bool | PyStr string

fun truthy :: "py_val \<Rightarrow> bool" where
  "truthy (PyBool b) = b"
| "truthy (PyStr s) = (s \<noteq> [])"

section \<open>utils/dom\_extractor.py: match\_image\_with\_dom\<close>

text \<open>A DOM image is a Python dict with string keys, kept as an association list.\<close>

type_synonym dom_image = "(string \<times> py_val) list"

definition dict_get :: "dom_image \<Rightarrow> string \<Rightarrow> py_val \<Rightarrow> py_val" where
  "dict_get img k dflt = (case map_of img k of None \<Rightarrow> dflt | Some v \<Rightarrow> v)"

text \<open>
  The test of the loop body:
  \<^verbatim>\<open>not img.get('has_alt', False) or img.get('empty_alt', False)\<close>.
\<close>

definition lacks_alt :: "dom_image \<Rightarrow> bool" where
  "lacks_alt img =
     (\<not> truthy (dict_get img ''has_alt'' (PyBool False))
      \<or> truthy (dict_get img ''empty_alt'' (PyBool False)))"

text \<open>
  \<^verbatim>\<open>for img in dom_images: if ...: return img\<close>, then \<^verbatim>\<open>return None\<close>. The region and the
  viewport size are parameters of the method that its body never reads.
\<close>

fun match_image_with_dom ::
  "int \<times> int \<times> int \<times> int \<Rightarrow> dom_image list \<Rightarrow> int \<Rightarrow> int \<Rightarrow> dom_image option" where
  "match_image_with_dom image_region [] viewport_width viewport_height = None"
| "match_image_with_dom image_region (img # dom_images) viewport_width viewport_height =
     (if lacks_alt img then Some img
      else match_image_with_dom image_region dom_images viewport_width viewport_height)"

text \<open>Two dictionaries as \<open>extract_images_info\<close> builds them for \<open>img\<close> elements.\<close>

definition img_with_alt :: dom_image where
  "img_with_alt =
     [(''element'', PyStr ''img''), (''src'', PyStr ''a.png''), (''alt'', PyStr ''logo''),
      (''has_alt'', PyBool True), (''empty_alt'', PyBool False)]"

definition img_without_alt :: dom_image where
  "img_without_alt =
     [(''element'', PyStr ''img''), (''src'', PyStr ''b.png''), (''alt'', PyStr ''''),
      (''has_alt'', PyBool False), (''empty_alt'', PyBool False)]"

definition img_empty_alt :: dom_image where
  "img_empty_alt =
     [(''element'', PyStr ''img''), (''src'', PyStr ''c.png''), (''alt'', PyStr ''''),
      (''has_alt'', PyBool True), (''empty_alt'', PyBool True)]"

section \<open>Images\<close>

text \<open>
  A PIL image: its mode, its size, and the channel values of the pixel at each
  coordinate (only coordinates inside the size are meaningful). Of PIL's modes the four
  below are modelled; a browser screenshot decodes to \<open>RGBA\<close> or \<open>RGB\<close>.
\<close>

datatype mode = L | LA | RGB | RGBA

record image =
  mode :: mode
  width :: nat
  height :: nat
  pixel_at :: "int \<Rightarrow> int \<Rightarrow> nat list"

text \<open>The pixel of an image converted to \<open>RGB\<close>: grey is replicated, alpha is dropped.\<close>

fun to_rgb :: "mode \<Rightarrow> nat list \<Rightarrow> nat list" where
  "to_rgb RGB p = p"
| "to_rgb RGBA p = take 3 p"
| "to_rgb L p = (case p of [] \<Rightarrow> [] | l # _ \<Rightarrow> [l, l, l])"
| "to_rgb LA p = (case p of [] \<Rightarrow> [] | l # _ \<Rightarrow> [l, l, l])"

definition convert_rgb :: "image \<Rightarrow> image" where
  "convert_rgb img =
     \<lparr>mode = RGB, width = width img, height = height img,
      pixel_at = (\<lambda>x y. to_rgb (mode img) (pixel_at img x y))\<rparr>"

section \<open>models/colorblind\_simulator.py: simulate\_colorblindness\<close>

text \<open>
  The four matrices of \<open>__init__\<close>, with every entry in thousandths (the source writes
  them with three decimals, as 32-bit floating point numbers).
\<close>

definition protanopia_matrix :: "nat list list" where
  "protanopia_matrix = [[567, 433, 0], [558, 442, 0], [0, 242, 758]]"

definition deuteranopia_matrix :: "nat list list" where
  "deuteranopia_matrix = [[625, 375, 0], [700, 300, 0], [0, 300, 700]]"

definition tritanopia_matrix :: "nat list list" where
  "tritanopia_matrix = [[950, 50, 0], [0, 433, 567], [0, 475, 525]]"

definition achromatopsia_matrix :: "nat list list" where
  "achromatopsia_matrix = [[299, 587, 114], [299, 587, 114], [299, 587, 114]]"

text \<open>
  The method. Its arithmetic runs in 32-bit floating point inside the tensor library:
  \<^verbatim>\<open>matmul(img_reshaped, transform_matrix.T)\<close>, \<^verbatim>\<open>clamp(0, 255)\<close> and \<^verbatim>\<open>astype(uint8)\<close>.
  The rounding of that pipeline is not modelled; \<open>torch_pixel m p\<close>, a parameter, stands
  for the three channels it yields for the pixel \<open>p\<close> under the matrix \<open>m\<close>.

  The first two statements, \<^verbatim>\<open>np.array(image)\<close> and \<^verbatim>\<open>torch.tensor(img_array, ...)\<close>, read
  the image into an array and change nothing; they precede the choice of the matrix.
  \<^verbatim>\<open>np.array(image)\<close> of a single-channel image has two dimensions, so the unpacking
  \<^verbatim>\<open>height, width, channels = img_array.shape\<close> raises \<open>ValueError\<close>; an image whose
  channel count is not 3 is converted to \<open>RGB\<close> first. The unrecognised type returns
  before either.
\<close>

definition simulate_colorblindness ::
  "(nat list list \<Rightarrow> nat list \<Rightarrow> nat list) \<Rightarrow> image \<Rightarrow> string \<Rightarrow> py_exn + image" where
  "simulate_colorblindness torch_pixel img colorblind_type =
     (let selected =
        (if colorblind_type = ''protanopia'' then Some protanopia_matrix
         else if colorblind_type = ''deuteranopia'' then Some deuteranopia_matrix
         else if colorblind_type = ''tritanopia'' then Some tritanopia_matrix
         else if colorblind_type = ''achromatopsia'' then Some achromatopsia_matrix
         else None)
      in case selected of
           None \<Rightarrow> Inr img
         | Some transform_matrix \<Rightarrow>
             if mode img = L then Inl ValueError
             else
               (let img' = (if mode img \<noteq> RGB then convert_rgb img else img)
                in Inr \<lparr>mode = RGB, width = width img', height = height img',
                        pixel_at = (\<lambda>x y. torch_pixel transform_matrix
                                               (pixel_at img' x y))\<rparr>))"

text \<open>A two by one \<open>RGBA\<close> image for the examples.\<close>

definition sample_image :: image where
  "sample_image =
     \<lparr>mode = RGBA, width = 2, height = 1,
      pixel_at = (\<lambda>x y. if x = 0 then [255, 0, 0, 255] else [10, 200, 30, 255])\<rparr>"

section \<open>utils/web\_capture.py: the browser session\<close>

text \<open>
  What the Selenium driver and the file system answer during one call of
  \<open>capture_full_page_screenshot\<close>. The method makes its calls in a fixed order, so the
  answers inside the scroll loop are indexed by the iteration \<open>i\<close> that asks:
  \<^item> \<open>get_url\<close>: \<^verbatim>\<open>driver.get(url)\<close>, \<open>None\<close> when the page loaded;
  \<^item> \<open>inner_width\<close>, \<open>inner_height\<close>, \<open>document_height\<close>: the three measurements
    \<^verbatim>\<open>window.innerWidth\<close>, \<^verbatim>\<open>window.innerHeight\<close> and the larger of the two scroll heights;
  \<^item> \<open>set_window_size\<close>: \<open>None\<close> when the window was resized;
  \<^item> \<open>get_full_page_screenshot_as_png\<close>: the decoded native capture, or what it raised
    (\<open>AttributeError\<close> on a driver without the method);
  \<^item> \<open>scroll_and_read i y\<close>: \<^verbatim>\<open>window.scrollTo(0, y)\<close> followed by reading
    \<^verbatim>\<open>window.pageYOffset\<close>, at iteration \<open>i\<close>;
  \<^item> \<open>get_screenshot_as_png i\<close>: the decoded viewport screenshot of iteration \<open>i\<close>;
  \<^item> \<open>save_image\<close>: \<^verbatim>\<open>os.makedirs\<close> of the directory and \<^verbatim>\<open>image.save\<close>, \<open>None\<close> when saved.
  The measurements are taken as integers and the sleeps are left out.
\<close>

record driver =
  get_url :: "string \<Rightarrow> py_exn option"
  inner_width :: int
  inner_height :: int
  document_height :: int
  set_window_size :: "int \<Rightarrow> int \<Rightarrow> py_exn option"
  get_full_page_screenshot_as_png :: "py_exn + image"
  scroll_and_read :: "nat \<Rightarrow> int \<Rightarrow> py_exn + int"
  get_screenshot_as_png :: "nat \<Rightarrow> py_exn + image"
  save_image :: "string \<Rightarrow> image \<Rightarrow> py_exn option"

subsection \<open>The PIL operations the method uses\<close>

text \<open>\<^verbatim>\<open>Image.new('RGB', (w, h))\<close>: a black image; a negative size raises \<open>ValueError\<close>.\<close>

definition image_new :: "int \<Rightarrow> int \<Rightarrow> py_exn + image" where
  "image_new w h =
     (if w < 0 \<or> h < 0 then Inl ValueError
      else Inr \<lparr>mode = RGB, width = nat w, height = nat h, pixel_at = (\<lambda>x y. [0, 0, 0])\<rparr>)"

fun channels :: "mode \<Rightarrow> nat" where
  "channels L = 1"
| "channels LA = 2"
| "channels RGB = 3"
| "channels RGBA = 4"

text \<open>
  \<^verbatim>\<open>img.crop((left, upper, right, lower))\<close>: the box as an image of its own; what lies
  outside the source is zero. The method only crops with \<open>0 \<le> right\<close> and \<open>0 \<le> lower\<close>.
\<close>

definition crop :: "image \<Rightarrow> int \<times> int \<times> int \<times> int \<Rightarrow> image" where
  "crop img box =
     (case box of (left, upper, right, lower) \<Rightarrow>
        \<lparr>mode = mode img, width = nat (right - left), height = nat (lower - upper),
         pixel_at = (\<lambda>x y.
           if 0 \<le> x + left \<and> x + left < int (width img)
              \<and> 0 \<le> y + upper \<and> y + upper < int (height img)
           then pixel_at img (x + left) (y + upper)
           else replicate (channels (mode img)) 0)\<rparr>)"

text \<open>
  \<^verbatim>\<open>canvas.paste(region, (x0, y0))\<close> on the \<open>RGB\<close> canvas of this module: the pixels of the
  region, converted to \<open>RGB\<close>, replace the canvas pixels under it; the part of the region
  outside the canvas is dropped.
\<close>

definition paste :: "image \<Rightarrow> image \<Rightarrow> int \<times> int \<Rightarrow> image" where
  "paste canvas region pos =
     (case pos of (x0, y0) \<Rightarrow>
        canvas\<lparr>pixel_at := (\<lambda>x y.
          if x0 \<le> x \<and> x < x0 + int (width region) \<and> y0 \<le> y \<and> y < y0 + int (height region)
             \<and> 0 \<le> x \<and> x < int (width canvas) \<and> 0 \<le> y \<and> y < int (height canvas)
          then to_rgb (mode region) (pixel_at region (x - x0) (y - y0))
          else pixel_at canvas x y)\<rparr>)"

subsection \<open>capture\_full\_page\_screenshot\<close>

text \<open>
  \<^verbatim>\<open>scroll_steps = (total_height // viewport_height) + 1\<close>, then the cap
  \<^verbatim>\<open>if max_scroll and scroll_steps > max_scroll: scroll_steps = max_scroll\<close>. Python's \<open>//\<close>
  raises on a zero divisor and floors as \<open>div\<close> does; \<open>None\<close> and \<open>0\<close> are both falsy.
\<close>

definition scroll_steps :: "int \<Rightarrow> int \<Rightarrow> int option \<Rightarrow> py_exn + int" where
  "scroll_steps total_height viewport_height max_scroll =
     (if viewport_height = 0 then Inl ZeroDivisionError
      else
        (let steps = total_height div viewport_height + 1
         in case max_scroll of
              None \<Rightarrow> Inr steps
            | Some m \<Rightarrow> if m \<noteq> 0 \<and> steps > m then Inr m else Inr steps))"

text \<open>
  The loop \<^verbatim>\<open>for i in range(scroll_steps)\<close>, run over the list of the indices still to
  visit, with \<open>last_height\<close> and the list of screenshots as its state. The \<^verbatim>\<open>break\<close>
  returns the screenshots taken so far; an exception of the driver leaves the loop.
\<close>

fun capture_sections ::
  "driver \<Rightarrow> int \<Rightarrow> nat list \<Rightarrow> int \<Rightarrow> image list \<Rightarrow> py_exn + image list" where
  "capture_sections d viewport_height [] last_height screenshots = Inr screenshots"
| "capture_sections d viewport_height (i # rest) last_height screenshots =
     (case scroll_and_read d i (int i * viewport_height) of
        Inl e \<Rightarrow> Inl e
      | Inr current_height \<Rightarrow>
          if current_height = last_height \<and> i > 0 then Inr screenshots
          else
            (case get_screenshot_as_png d i of
               Inl e \<Rightarrow> Inl e
             | Inr img \<Rightarrow>
                 capture_sections d viewport_height rest current_height (screenshots @ [img])))"

text \<open>The sections of one run: the loop over \<^verbatim>\<open>range(scroll_steps)\<close> from its initial state.\<close>

definition run_scroll_loop :: "driver \<Rightarrow> int \<Rightarrow> int \<Rightarrow> py_exn + image list" where
  "run_scroll_loop d viewport_height steps =
     capture_sections d viewport_height [0..<nat steps] 0 []"

text \<open>
  The body of \<^verbatim>\<open>for i, img in enumerate(screenshots)\<close>. Its two local values are
  functions of their own: \<^verbatim>\<open>paste_height = min(img.height, final_height - y_offset)\<close> and
  \<^verbatim>\<open>region = img.crop((0, 0, img.width, paste_height))\<close>. A section whose offset lies
  inside the canvas is cropped to \<open>paste_height\<close> rows and pasted at \<open>(0, y_offset)\<close>; a
  section whose offset does not is skipped.
\<close>

definition paste_height :: "image \<Rightarrow> int \<Rightarrow> int \<Rightarrow> int" where
  "paste_height img final_height y_offset = min (int (height img)) (final_height - y_offset)"

definition section_region :: "image \<Rightarrow> int \<Rightarrow> image" where
  "section_region img rows = crop img (0, 0, int (width img), rows)"

definition paste_section :: "int \<Rightarrow> int \<Rightarrow> nat \<Rightarrow> image \<Rightarrow> image \<Rightarrow> image" where
  "paste_section viewport_height final_height i img combined_image =
     (let y_offset = int i * viewport_height
      in if y_offset < final_height then
           paste combined_image
             (section_region img (paste_height img final_height y_offset)) (0, y_offset)
         else combined_image)"

text \<open>The loop: the body at the indices 0, 1, 2 and so on, in the order of the list.\<close>

fun paste_sections :: "int \<Rightarrow> int \<Rightarrow> nat \<Rightarrow> image list \<Rightarrow> image \<Rightarrow> image" where
  "paste_sections viewport_height final_height i [] combined_image = combined_image"
| "paste_sections viewport_height final_height i (img # rest) combined_image =
     paste_sections viewport_height final_height (Suc i) rest
       (paste_section viewport_height final_height i img combined_image)"

text \<open>The branch \<^verbatim>\<open>if screenshots:\<close> up to the combined image; \<open>first\<close> is \<open>screenshots[0]\<close>.\<close>

definition combine_screenshots :: "int \<Rightarrow> int \<Rightarrow> image \<Rightarrow> image list \<Rightarrow> py_exn + image" where
  "combine_screenshots total_height viewport_height first rest =
     (let final_width = int (width first);
          final_height = min total_height (viewport_height * int (length (first # rest)))
      in case image_new final_width final_height of
           Inl e \<Rightarrow> Inl e
         | Inr combined_image \<Rightarrow>
             Inr (paste_sections viewport_height final_height 0 (first # rest) combined_image))"

text \<open>\<^verbatim>\<open>if output_path: os.makedirs(...); image.save(output_path)\<close>; an empty path is falsy.\<close>

definition save_to :: "driver \<Rightarrow> string option \<Rightarrow> image \<Rightarrow> py_exn option" where
  "save_to d output_path img =
     (case output_path of
        None \<Rightarrow> None
      | Some path \<Rightarrow> if path = [] then None else save_image d path img)"

text \<open>The body of the inner \<^verbatim>\<open>try\<close>: resize to the whole document, capture, save.\<close>

definition native_capture :: "driver \<Rightarrow> int \<Rightarrow> int \<Rightarrow> string option \<Rightarrow> py_exn + image" where
  "native_capture d viewport_width total_height output_path =
     (case set_window_size d viewport_width total_height of
        Some e \<Rightarrow> Inl e
      | None \<Rightarrow>
          (case get_full_page_screenshot_as_png d of
             Inl e \<Rightarrow> Inl e
           | Inr full_image \<Rightarrow>
               (case save_to d output_path full_image of
                  Some e \<Rightarrow> Inl e
                | None \<Rightarrow> Inr full_image)))"

text \<open>
  The handler of the inner \<^verbatim>\<open>try\<close>, the scroll and stitch path. \<open>Inr None\<close> is its
  \<^verbatim>\<open>return None\<close> when no section was captured; \<open>Inl\<close> is an exception on its way to the
  handlers of the outer \<^verbatim>\<open>try\<close>.
\<close>

definition scroll_and_stitch ::
  "driver \<Rightarrow> int \<Rightarrow> int \<Rightarrow> int \<Rightarrow> string option \<Rightarrow> int option \<Rightarrow> py_exn + image option" where
  "scroll_and_stitch d viewport_width viewport_height total_height output_path max_scroll =
     (case set_window_size d viewport_width viewport_height of
        Some e \<Rightarrow> Inl e
      | None \<Rightarrow>
          (case scroll_steps total_height viewport_height max_scroll of
             Inl e \<Rightarrow> Inl e
           | Inr steps \<Rightarrow>
               (case run_scroll_loop d viewport_height steps of
                  Inl e \<Rightarrow> Inl e
                | Inr [] \<Rightarrow> Inr None
                | Inr (first # rest) \<Rightarrow>
                    (case combine_screenshots total_height viewport_height first rest of
                       Inl e \<Rightarrow> Inl e
                     | Inr combined_image \<Rightarrow>
                         (case save_to d output_path combined_image of
                            Some e \<Rightarrow> Inl e
                          | None \<Rightarrow> Inr (Some combined_image))))))"

text \<open>The exceptions that \<^verbatim>\<open>except (AttributeError, WebDriverException)\<close> catches.\<close>

fun native_handler_catches :: "py_exn \<Rightarrow> bool" where
  "native_handler_catches AttributeError = True"
| "native_handler_catches WebDriverException = True"
| "native_handler_catches TimeoutException = True"
| "native_handler_catches e = False"

text \<open>
  The method. Both handlers of the outer \<^verbatim>\<open>try\<close> return \<open>None\<close>, so every exception that
  reaches them does; the method itself raises nothing.
\<close>

definition capture_full_page_screenshot ::
  "driver \<Rightarrow> string \<Rightarrow> string option \<Rightarrow> int option \<Rightarrow> image option" where
  "capture_full_page_screenshot d url output_path max_scroll =
     (case get_url d url of
        Some e \<Rightarrow> None
      | None \<Rightarrow>
          (let viewport_width = inner_width d;
               viewport_height = inner_height d;
               total_height = document_height d
           in case native_capture d viewport_width total_height output_path of
                Inr full_image \<Rightarrow> Some full_image
              | Inl e \<Rightarrow>
                  if native_handler_catches e then
                    (case scroll_and_stitch d viewport_width viewport_height total_height
                            output_path max_scroll of
                       Inl e' \<Rightarrow> None
                     | Inr result \<Rightarrow> result)
                  else None))"

subsection \<open>Browser sessions for the examples\<close>

text \<open>The page shown by the example sessions: a pixel that encodes its own position.\<close>

definition page_pixel :: "int \<Rightarrow> int \<Rightarrow> nat list" where
  "page_pixel x y = [nat (x mod 256), nat (y mod 256), nat (y div 256 mod 256), 255]"

text \<open>
  A session without native capture (Chrome's driver has no
  \<open>get_full_page_screenshot_as_png\<close>) on a page \<open>w\<close> wide and \<open>th\<close> high, seen through a
  viewport \<open>vh\<close> high. \<open>pos y\<close> is the offset the browser reaches when asked for \<open>y\<close>; the
  screenshot shows the page from that offset on.
\<close>

definition viewport_shot :: "int \<Rightarrow> int \<Rightarrow> int \<Rightarrow> image" where
  "viewport_shot w vh offset =
     \<lparr>mode = RGBA, width = nat w, height = nat vh,
      pixel_at = (\<lambda>x y. page_pixel x (offset + y))\<rparr>"

definition scripted_driver :: "int \<Rightarrow> int \<Rightarrow> int \<Rightarrow> (int \<Rightarrow> int) \<Rightarrow> driver" where
  "scripted_driver w vh th pos =
     \<lparr>get_url = (\<lambda>url. None),
      inner_width = w, inner_height = vh, document_height = th,
      set_window_size = (\<lambda>a b. None),
      get_full_page_screenshot_as_png = Inl AttributeError,
      scroll_and_read = (\<lambda>i y. Inr (pos y)),
      get_screenshot_as_png = (\<lambda>i. Inr (viewport_shot w vh (pos (int i * vh)))),
      save_image = (\<lambda>path img. None)\<rparr>"

text \<open>A browser that stops scrolling at the bottom of the page, as \<^verbatim>\<open>window.scrollTo\<close> does.\<close>

definition clamping_browser :: "int \<Rightarrow> int \<Rightarrow> int \<Rightarrow> driver" where
  "clamping_browser w vh th = scripted_driver w vh th (\<lambda>y. max 0 (min y (th - vh)))"

text \<open>A session whose offsets are the requested ones: 0, \<open>vh\<close>, \<open>2 * vh\<close> and so on.\<close>

definition stepping_browser :: "int \<Rightarrow> int \<Rightarrow> int \<Rightarrow> driver" where
  "stepping_browser w vh th = scripted_driver w vh th (\<lambda>y. y)"


text \<open>
  The scroll range of a page: every offset the browser reports lies between 0 and
  \<open>total_height - viewport_height\<close> (0 on a page no taller than the viewport).
\<close>

definition offsets_in_scroll_range :: "driver \<Rightarrow> int \<Rightarrow> int \<Rightarrow> bool" where
  "offsets_in_scroll_range d total_height viewport_height =
     (\<forall>i y. \<exists>r. scroll_and_read d i y = Inr r
                \<and> 0 \<le> r \<and> r \<le> max 0 (total_height - viewport_height))"

text \<open>
  The number of sections of one run of the scroll path, and the height of the image the
  method returns.
\<close>

definition sections_captured :: "driver \<Rightarrow> int option \<Rightarrow> py_exn + nat" where
  "sections_captured d max_scroll =
     (case scroll_steps (document_height d) (inner_height d) max_scroll of
        Inl e \<Rightarrow> Inl e
      | Inr steps \<Rightarrow>
          (case run_scroll_loop d (inner_height d) steps of
             Inl e \<Rightarrow> Inl e
           | Inr shots \<Rightarrow> Inr (length shots)))"

definition returned_height :: "image option \<Rightarrow> nat option" where
  "returned_height result = map_option height result"

text \<open>\<open>ceil(a / b)\<close> as the specification writes it.\<close>

definition ceil_div :: "int \<Rightarrow> int \<Rightarrow> int" where
  "ceil_div a b = \<lceil>real_of_int a / real_of_int b\<rceil>"

subsection \<open>The composites of two example runs\<close>

text \<open>
  The page 1920 wide and 2000 high behind a viewport 800 high: the three sections as the
  clamping browser shows them (offsets 0, 800, 1200) and as the stepping session shows
  them (offsets 0, 800, 1600), pasted on the black canvas that \<open>Image.new\<close> makes.
\<close>

definition blank_canvas :: "nat \<Rightarrow> nat \<Rightarrow> image" where
  "blank_canvas w h = \<lparr>mode = RGB, width = w, height = h, pixel_at = (\<lambda>x y. [0, 0, 0])\<rparr>"

definition clamped_composite :: image where
  "clamped_composite =
     paste_sections 800 2000 0
       [viewport_shot 1920 800 0, viewport_shot 1920 800 800, viewport_shot 1920 800 1200]
       (blank_canvas 1920 2000)"

definition stepped_composite :: image where
  "stepped_composite =
     paste_sections 800 2000 0
       [viewport_shot 1920 800 0, viewport_shot 1920 800 800, viewport_shot 1920 800 1600]
       (blank_canvas 1920 2000)"

definition returned_pixel :: "image option \<Rightarrow> int \<Rightarrow> int \<Rightarrow> nat list option" where
  "returned_pixel result x y = map_option (\<lambda>img. pixel_at img x y) result"

subsection \<open>Further example sessions and images\<close>

text \<open>
  A browser that stops at the bottom of the page answers every request to scroll with
  the requested offset cut to the range from 0 to \<open>total_height - viewport_height\<close>.
\<close>

definition scrolling_stops_at_bottom :: "driver \<Rightarrow> int \<Rightarrow> int \<Rightarrow> bool" where
  "scrolling_stops_at_bottom d total_height viewport_height =
     (\<forall>i y. scroll_and_read d i y = Inr (max 0 (min y (total_height - viewport_height))))"

text \<open>
  The composite of the page 2400 high under a cap of two sections, the composite of a
  page exactly one viewport high, and the image a native capture of the page 2000 high
  returns.
\<close>

definition capped_composite :: image where
  "capped_composite =
     paste_sections 800 1600 0 [viewport_shot 1920 800 0, viewport_shot 1920 800 800]
       (blank_canvas 1920 1600)"

definition short_composite :: image where
  "short_composite =
     paste_sections 800 800 0 [viewport_shot 1920 800 0] (blank_canvas 1920 800)"



text \<open>
  The screenshots of a session whose \<open>get_screenshot_as_png\<close> raises from step \<open>n\<close> on and
  answers as the driver \<open>d\<close> before.
\<close>

definition camera_failing_from :: "nat \<Rightarrow> driver \<Rightarrow> nat \<Rightarrow> py_exn + image" where
  "camera_failing_from n d j =
     (if j < n then get_screenshot_as_png d j else Inl WebDriverException)"


section \<open>Properties of match\_image\_with\_dom\<close>

lemma match_image_with_dom_find:
  "match_image_with_dom r imgs w h = List.find lacks_alt imgs"
  by (induction imgs) simp_all

text \<open>
  C9. For every region, viewport size and list of DOM images, \<open>match_image_with_dom\<close>
  returns the first image of the list, in list order, whose \<open>has_alt\<close> entry is false
  (or absent, the default of \<open>get\<close>) or whose \<open>empty_alt\<close> entry is true, and \<open>None\<close>
  exactly when the list has no such image; the result does not depend on the region or
  on the viewport size. For a dictionary that carries both entries as booleans, as
  \<open>extract_images_info\<close> builds them, the test \<open>lacks_alt\<close> is exactly
  "\<open>has_alt\<close> is false or \<open>empty_alt\<close> is true".
\<close>

theorem match_image_with_dom_first_lacking_alt:
  "(match_image_with_dom r imgs w h = Some img \<longleftrightarrow>
      (\<exists>k < length imgs. imgs ! k = img \<and> lacks_alt img \<and> (\<forall>j < k. \<not> lacks_alt (imgs ! j))))
   \<and> (match_image_with_dom r imgs w h = None \<longleftrightarrow> (\<forall>x \<in> set imgs. \<not> lacks_alt x))
   \<and> match_image_with_dom r imgs w h = match_image_with_dom r' imgs w' h'
   \<and> (map_of entry ''has_alt'' = Some (PyBool a)
        \<longrightarrow> map_of entry ''empty_alt'' = Some (PyBool b)
        \<longrightarrow> lacks_alt entry = (\<not> a \<or> b))"
proof (intro conjI)
  show "match_image_with_dom r imgs w h = Some img \<longleftrightarrow>
      (\<exists>k < length imgs. imgs ! k = img \<and> lacks_alt img \<and> (\<forall>j < k. \<not> lacks_alt (imgs ! j)))"
    unfolding match_image_with_dom_find find_Some_iff by blast
  show "match_image_with_dom r imgs w h = None \<longleftrightarrow> (\<forall>x \<in> set imgs. \<not> lacks_alt x)"
    unfolding match_image_with_dom_find find_None_iff by blast
  show "match_image_with_dom r imgs w h = match_image_with_dom r' imgs w' h'"
    by (simp add: match_image_with_dom_find)
  show "map_of entry ''has_alt'' = Some (PyBool a)
        \<longrightarrow> map_of entry ''empty_alt'' = Some (PyBool b)
        \<longrightarrow> lacks_alt entry = (\<not> a \<or> b)"
    by (simp add: lacks_alt_def dict_get_def)
qed

theorem match_image_with_dom_first_lacking_alt_witness:
  "match_image_with_dom (0, 0, 10, 10) [img_with_alt, img_empty_alt, img_without_alt] 1920 1080
     = Some img_empty_alt
   \<and> match_image_with_dom (5, 7, 300, 20) [img_with_alt, img_empty_alt, img_without_alt] 800 600
     = Some img_empty_alt
   \<and> (\<exists>k < length [img_with_alt, img_empty_alt, img_without_alt].
        [img_with_alt, img_empty_alt, img_without_alt] ! k = img_empty_alt
        \<and> lacks_alt img_empty_alt
        \<and> (\<forall>j < k. \<not> lacks_alt ([img_with_alt, img_empty_alt, img_without_alt] ! j)))
   \<and> map_of img_with_alt ''has_alt'' = Some (PyBool True)
   \<and> map_of img_with_alt ''empty_alt'' = Some (PyBool False)
   \<and> lacks_alt img_with_alt = (\<not> True \<or> False)"
proof -
  have a: "\<not> lacks_alt img_with_alt"
    by (simp add: lacks_alt_def dict_get_def img_with_alt_def)
  have b: "lacks_alt img_empty_alt"
    by (simp add: lacks_alt_def dict_get_def img_empty_alt_def)
  have m: "match_image_with_dom (0, 0, 10, 10)
             [img_with_alt, img_empty_alt, img_without_alt] 1920 1080 = Some img_empty_alt"
    by (simp add: a b)
  have k1: "map_of img_with_alt ''has_alt'' = Some (PyBool True)"
    and k2: "map_of img_with_alt ''empty_alt'' = Some (PyBool False)"
    by (simp_all add: img_with_alt_def)
  note t = match_image_with_dom_first_lacking_alt
         [where r = "(0, 0, 10, 10)"
            and imgs = "[img_with_alt, img_empty_alt, img_without_alt]"
            and w = 1920 and h = 1080 and img = img_empty_alt
            and r' = "(5, 7, 300, 20)" and w' = 800 and h' = 600
            and entry = img_with_alt and a = True and b = False]
  from t m have e: "\<exists>k < length [img_with_alt, img_empty_alt, img_without_alt].
        [img_with_alt, img_empty_alt, img_without_alt] ! k = img_empty_alt
        \<and> lacks_alt img_empty_alt
        \<and> (\<forall>j < k. \<not> lacks_alt ([img_with_alt, img_empty_alt, img_without_alt] ! j))"
    by blast
  from t m have i: "match_image_with_dom (5, 7, 300, 20)
             [img_with_alt, img_empty_alt, img_without_alt] 800 600 = Some img_empty_alt"
    by metis
  from t k1 k2 have l: "lacks_alt img_with_alt = (\<not> True \<or> False)"
    by blast
  from m i e k1 k2 l show ?thesis by (intro conjI)
qed

section \<open>Properties of simulate\_colorblindness\<close>

text \<open>
  C10. For every image, \<open>simulate_colorblindness\<close> called with a type other than
  \<open>protanopia\<close>, \<open>deuteranopia\<close>, \<open>tritanopia\<close> and \<open>achromatopsia\<close> returns the image it
  was given, unchanged: it neither raises nor applies a matrix, whatever the tensor
  library would compute.
\<close>

theorem simulate_colorblindness_unrecognised_type:
  "colorblind_type \<notin> {''protanopia'', ''deuteranopia'', ''tritanopia'', ''achromatopsia''}
   \<Longrightarrow> simulate_colorblindness torch_pixel img colorblind_type = Inr img"
  by (simp add: simulate_colorblindness_def)

theorem simulate_colorblindness_unrecognised_type_witness:
  "''normal'' \<notin> {''protanopia'', ''deuteranopia'', ''tritanopia'', ''achromatopsia''}
   \<and> simulate_colorblindness (\<lambda>m p. take 3 p) sample_image ''normal'' = Inr sample_image"
proof -
  have h: "''normal'' \<notin> {''protanopia'', ''deuteranopia'', ''tritanopia'', ''achromatopsia''}"
    by simp
  from h simulate_colorblindness_unrecognised_type [OF h, of "\<lambda>m p. take 3 p" sample_image]
  show ?thesis by simp
qed

section \<open>The scroll loop and the paste loop\<close>

lemma capture_sections_extends:
  "capture_sections d vh is l acc = Inr res \<Longrightarrow>
   \<exists>new. res = acc @ new \<and> length new \<le> length is
         \<and> map (get_screenshot_as_png d) (take (length new) is) = map Inr new"
proof (induction "is" arbitrary: l acc)
  case Nil
  then show ?case by simp
next
  case (Cons i rest)
  show ?case
  proof (cases "scroll_and_read d i (int i * vh)")
    case (Inl e)
    with Cons.prems show ?thesis by simp
  next
    case (Inr cur)
    show ?thesis
    proof (cases "cur = l \<and> i > 0")
      case True
      with Cons.prems Inr have "res = acc" by simp
      then show ?thesis by simp
    next
      case False
      show ?thesis
      proof (cases "get_screenshot_as_png d i")
        case (Inl e)
        with Cons.prems Inr False show ?thesis by simp
      next
        case shot: (Inr img)
        with Cons.prems Inr False
        have "capture_sections d vh rest cur (acc @ [img]) = Inr res" by simp
        from Cons.IH [OF this] obtain new where
          n: "res = (acc @ [img]) @ new" "length new \<le> length rest"
             "map (get_screenshot_as_png d) (take (length new) rest) = map Inr new"
          by blast
        have "res = acc @ (img # new) \<and> length (img # new) \<le> length (i # rest)
              \<and> map (get_screenshot_as_png d) (take (length (img # new)) (i # rest))
                  = map Inr (img # new)"
          using n shot by simp
        then show ?thesis by blast
      qed
    qed
  qed
qed

lemma capture_sections_stops_at_repeat:
  "capture_sections d vh (pre @ i # post) l acc = Inr res \<Longrightarrow> 0 < i \<Longrightarrow>
   scroll_and_read d i (int i * vh) = Inr v \<Longrightarrow>
   (if pre = [] then l = v else scroll_and_read d (last pre) (int (last pre) * vh) = Inr v) \<Longrightarrow>
   length res \<le> length acc + length pre"
proof (induction pre arbitrary: l acc)
  case Nil
  then show ?case by simp
next
  case (Cons p pre)
  show ?case
  proof (cases "scroll_and_read d p (int p * vh)")
    case (Inl e)
    with Cons.prems show ?thesis by simp
  next
    case (Inr cur)
    show ?thesis
    proof (cases "cur = l \<and> p > 0")
      case True
      with Cons.prems Inr have "res = acc" by simp
      then show ?thesis by simp
    next
      case False
      show ?thesis
      proof (cases "get_screenshot_as_png d p")
        case (Inl e)
        with Cons.prems Inr False show ?thesis by simp
      next
        case shot: (Inr img)
        with Cons.prems Inr False
        have run: "capture_sections d vh (pre @ i # post) cur (acc @ [img]) = Inr res" by simp
        have link: "if pre = [] then cur = v
                    else scroll_and_read d (last pre) (int (last pre) * vh) = Inr v"
          using Cons.prems(4) Inr by (simp split: if_splits)
        from Cons.IH [OF run Cons.prems(2) Cons.prems(3) link]
        show ?thesis by simp
      qed
    qed
  qed
qed

lemma capture_sections_ignores_later_shots:
  "0 < i \<Longrightarrow> scroll_and_read d i (int i * vh) = Inr v \<Longrightarrow>
   (if pre = [] then l = v else scroll_and_read d (last pre) (int (last pre) * vh) = Inr v) \<Longrightarrow>
   \<forall>p \<in> set pre. g p = get_screenshot_as_png d p \<Longrightarrow>
   capture_sections (d\<lparr>get_screenshot_as_png := g\<rparr>) vh (pre @ i # post) l acc
     = capture_sections d vh (pre @ i # post) l acc"
proof (induction pre arbitrary: l acc)
  case Nil
  then show ?case by simp
next
  case (Cons p pre)
  show ?case
  proof (cases "scroll_and_read d p (int p * vh)")
    case (Inl e)
    then show ?thesis by simp
  next
    case (Inr cur)
    show ?thesis
    proof (cases "cur = l \<and> p > 0")
      case True
      with Inr show ?thesis by simp
    next
      case False
      have same: "g p = get_screenshot_as_png d p" using Cons.prems(4) by simp
      show ?thesis
      proof (cases "get_screenshot_as_png d p")
        case (Inl e)
        with Inr False same show ?thesis by auto
      next
        case shot: (Inr img)
        have link: "if pre = [] then cur = v
                    else scroll_and_read d (last pre) (int (last pre) * vh) = Inr v"
          using Cons.prems(3) Inr by (simp split: if_splits)
        have rest: "\<forall>p \<in> set pre. g p = get_screenshot_as_png d p"
          using Cons.prems(4) by simp
        from Cons.IH [OF Cons.prems(1) Cons.prems(2) link rest, of "acc @ [img]"]
        show ?thesis using Inr False same shot by auto
      qed
    qed
  qed
qed

lemma capture_sections_returns_at_repeat:
  "0 < i \<Longrightarrow> scroll_and_read d i (int i * vh) = Inr v \<Longrightarrow>
   (if pre = [] then l = v else scroll_and_read d (last pre) (int (last pre) * vh) = Inr v) \<Longrightarrow>
   \<forall>p \<in> set pre. (\<exists>r. scroll_and_read d p (int p * vh) = Inr r)
                 \<and> (\<exists>s. get_screenshot_as_png d p = Inr s) \<Longrightarrow>
   \<exists>res. capture_sections d vh (pre @ i # post) l acc = Inr res"
proof (induction pre arbitrary: l acc)
  case Nil
  then show ?case by simp
next
  case (Cons p pre)
  from Cons.prems(4) obtain cur img where
    rd: "scroll_and_read d p (int p * vh) = Inr cur" and
    shot: "get_screenshot_as_png d p = Inr img"
    by auto
  show ?case
  proof (cases "cur = l \<and> p > 0")
    case True
    with rd show ?thesis by simp
  next
    case False
    have link: "if pre = [] then cur = v
                else scroll_and_read d (last pre) (int (last pre) * vh) = Inr v"
      using Cons.prems(3) rd by (simp split: if_splits)
    have rest: "\<forall>p \<in> set pre. (\<exists>r. scroll_and_read d p (int p * vh) = Inr r)
                 \<and> (\<exists>s. get_screenshot_as_png d p = Inr s)"
      using Cons.prems(4) by simp
    from Cons.IH [OF Cons.prems(1) Cons.prems(2) link rest, of "acc @ [img]"]
    show ?thesis using rd False shot by auto
  qed
qed

lemma upt_split_at: "i < n \<Longrightarrow> [0..<n] = [0..<i] @ i # [Suc i..<n]"
  by (metis upt_conv_Cons upt_add_eq_append le_add_diff_inverse less_imp_le_nat zero_le)

lemma paste_section_size:
  "width (paste_section vh fh k s c) = width c
   \<and> height (paste_section vh fh k s c) = height c
   \<and> mode (paste_section vh fh k s c) = mode c"
  by (simp add: paste_section_def Let_def paste_def)

lemma paste_sections_size:
  "width (paste_sections vh fh k shots c) = width c
   \<and> height (paste_sections vh fh k shots c) = height c
   \<and> mode (paste_sections vh fh k shots c) = mode c"
  by (induction shots arbitrary: k c) (simp_all add: paste_section_size)

lemma paste_section_beyond_final:
  "fh \<le> Y \<Longrightarrow> pixel_at (paste_section vh fh k s c) x Y = pixel_at c x Y"
  by (auto simp: paste_section_def Let_def paste_def section_region_def crop_def
        paste_height_def)

lemma paste_sections_beyond_final:
  "fh \<le> Y \<Longrightarrow> pixel_at (paste_sections vh fh k shots c) x Y = pixel_at c x Y"
  by (induction shots arbitrary: k c) (simp_all add: paste_section_beyond_final)

lemma paste_section_above:
  "Y < int k * vh \<Longrightarrow> pixel_at (paste_section vh fh k s c) x Y = pixel_at c x Y"
  by (auto simp: paste_section_def Let_def paste_def)

lemma paste_sections_above:
  "0 \<le> vh \<Longrightarrow> Y < int k * vh \<Longrightarrow>
   pixel_at (paste_sections vh fh k shots c) x Y = pixel_at c x Y"
proof (induction shots arbitrary: k c)
  case Nil
  then show ?case by simp
next
  case (Cons s rest)
  have step: "Y < int (Suc k) * vh"
    using Cons.prems by (auto simp: algebra_simps)
  from Cons.IH [OF Cons.prems(1) step] paste_section_above [OF Cons.prems(2)]
  show ?case by simp
qed

lemma paste_section_pixel:
  "0 \<le> vh \<Longrightarrow> 0 \<le> x \<Longrightarrow> x < int (width s) \<Longrightarrow> x < int (width c) \<Longrightarrow>
   0 \<le> y \<Longrightarrow> y < int (height s) \<Longrightarrow> int k * vh + y < fh \<Longrightarrow> fh \<le> int (height c) \<Longrightarrow>
   pixel_at (paste_section vh fh k s c) x (int k * vh + y) = to_rgb (mode s) (pixel_at s x y)"
  by (simp add: paste_section_def Let_def paste_def section_region_def crop_def
        paste_height_def)

lemma paste_sections_pixel:
  "0 \<le> vh \<Longrightarrow> i < length shots \<Longrightarrow>
   0 \<le> x \<Longrightarrow> x < int (width (shots ! i)) \<Longrightarrow> x < int (width c) \<Longrightarrow>
   0 \<le> y \<Longrightarrow> y < int (height (shots ! i)) \<Longrightarrow> y < vh \<Longrightarrow>
   int (k + i) * vh + y < fh \<Longrightarrow> fh \<le> int (height c) \<Longrightarrow>
   pixel_at (paste_sections vh fh k shots c) x (int (k + i) * vh + y)
     = to_rgb (mode (shots ! i)) (pixel_at (shots ! i) x y)"
proof (induction shots arbitrary: k c i)
  case Nil
  then show ?case by simp
next
  case (Cons s rest)
  let ?c' = "paste_section vh fh k s c"
  have size: "width ?c' = width c" "height ?c' = height c"
    by (simp_all add: paste_section_size)
  show ?case
  proof (cases i)
    case 0
    have below: "int k * vh + y < int (Suc k) * vh"
      using Cons.prems(8) by (simp add: algebra_simps)
    have "pixel_at ?c' x (int k * vh + y) = to_rgb (mode s) (pixel_at s x y)"
      using Cons.prems 0 by (intro paste_section_pixel) simp_all
    moreover have "pixel_at (paste_sections vh fh (Suc k) rest ?c') x (int k * vh + y)
                   = pixel_at ?c' x (int k * vh + y)"
      by (rule paste_sections_above [OF Cons.prems(1) below])
    ultimately show ?thesis using 0 by simp
  next
    case (Suc i')
    have "pixel_at (paste_sections vh fh (Suc k) rest ?c') x (int (Suc k + i') * vh + y)
          = to_rgb (mode (rest ! i')) (pixel_at (rest ! i') x y)"
      using Cons.prems Suc size by (intro Cons.IH) simp_all
    with Suc show ?thesis by simp
  qed
qed

lemma paste_sections_fold:
  "paste_sections vh fh k shots c
     = foldl (\<lambda>c j. paste_section vh fh (k + j) (shots ! j) c) c [0..<length shots]"
proof (induction shots arbitrary: k c)
  case Nil
  then show ?case by simp
next
  case (Cons s rest)
  have "[0..<length (s # rest)] = 0 # map Suc [0..<length rest]"
    by (simp add: upt_conv_Cons map_Suc_upt del: upt_Suc)
  then show ?case
    by (simp add: Cons.IH foldl_map del: upt_Suc)
qed

subsection \<open>The example sessions\<close>

lemma scripted_simps:
  "scroll_and_read (scripted_driver w vh th pos) i y = Inr (pos y)"
  "get_screenshot_as_png (scripted_driver w vh th pos) i = Inr (viewport_shot w vh (pos (int i * vh)))"
  "get_url (scripted_driver w vh th pos) u = None"
  "set_window_size (scripted_driver w vh th pos) a b = None"
  "save_image (scripted_driver w vh th pos) p im = None"
  "get_full_page_screenshot_as_png (scripted_driver w vh th pos) = Inl AttributeError"
  "inner_width (scripted_driver w vh th pos) = w"
  "inner_height (scripted_driver w vh th pos) = vh"
  "document_height (scripted_driver w vh th pos) = th"
  by (simp_all add: scripted_driver_def)

lemma upt3: "[0..<3] = [0, 1, 2::nat]" by (simp add: upt_rec)
lemma upt4: "[0..<4] = [0, 1, 2, 3::nat]" by (simp add: upt_rec)

section \<open>Properties of capture\_full\_page\_screenshot\<close>

subsection \<open>The combined image\<close>

lemma combine_screenshots_result:
  assumes "combine_screenshots th vh first rest = Inr img"
  shows "int (height img) = min th (vh * int (length (first # rest)))"
    and "width img = width first"
    and "0 \<le> vh"
    and "img = paste_sections vh (min th (vh * int (length (first # rest)))) 0 (first # rest)
                 \<lparr>mode = RGB, width = width first,
                  height = nat (min th (vh * int (length (first # rest)))),
                  pixel_at = (\<lambda>x y. [0, 0, 0])\<rparr>"
proof -
  define fh where "fh = min th (vh * int (length (first # rest)))"
  have run: "(case image_new (int (width first)) fh of
               Inl e \<Rightarrow> Inl e
             | Inr c \<Rightarrow> Inr (paste_sections vh fh 0 (first # rest) c)) = Inr img"
    using assms unfolding combine_screenshots_def Let_def fh_def .
  have nonneg: "0 \<le> fh"
  proof (rule ccontr)
    assume "\<not> 0 \<le> fh"
    then have "image_new (int (width first)) fh = Inl ValueError"
      by (simp add: image_new_def)
    with run show False by simp
  qed
  then have "image_new (int (width first)) fh
               = Inr \<lparr>mode = RGB, width = width first, height = nat fh,
                      pixel_at = (\<lambda>x y. [0, 0, 0])\<rparr>"
    by (simp add: image_new_def)
  with run have eq: "img = paste_sections vh fh 0 (first # rest)
                 \<lparr>mode = RGB, width = width first, height = nat fh,
                  pixel_at = (\<lambda>x y. [0, 0, 0])\<rparr>"
    by (simp del: paste_sections.simps)
  then show "img = paste_sections vh (min th (vh * int (length (first # rest)))) 0 (first # rest)
                 \<lparr>mode = RGB, width = width first,
                  height = nat (min th (vh * int (length (first # rest)))),
                  pixel_at = (\<lambda>x y. [0, 0, 0])\<rparr>"
    unfolding fh_def .
  from nonneg have "int (height img) = fh" "width img = width first"
    unfolding eq by (simp_all add: paste_sections_size del: paste_sections.simps)
  then show "int (height img) = min th (vh * int (length (first # rest)))"
    and "width img = width first"
    unfolding fh_def by simp_all
  have "fh \<le> vh * int (length (first # rest))" unfolding fh_def by simp
  with nonneg have "0 \<le> vh * (1 + int (length rest))" by simp
  then show "0 \<le> vh"
    by (simp add: zero_le_mult_iff)
qed

subsection \<open>The two example runs\<close>

lemma shot_size: "width (viewport_shot w vh off) = nat w" "height (viewport_shot w vh off) = nat vh"
  "mode (viewport_shot w vh off) = RGBA"
  "pixel_at (viewport_shot w vh off) x y = page_pixel x (off + y)"
  by (simp_all add: viewport_shot_def)

lemma clamped_run: "run_scroll_loop (clamping_browser 1920 800 2000) 800 3
   = Inr [viewport_shot 1920 800 0, viewport_shot 1920 800 800, viewport_shot 1920 800 1200]"
  by (simp add: run_scroll_loop_def clamping_browser_def scripted_simps upt3)

lemma stepped_run: "run_scroll_loop (stepping_browser 1920 800 2000) 800 3
   = Inr [viewport_shot 1920 800 0, viewport_shot 1920 800 800, viewport_shot 1920 800 1600]"
  by (simp add: run_scroll_loop_def stepping_browser_def scripted_simps upt3)

lemma steps_2000: "scroll_steps 2000 800 None = Inr 3"
  by (simp add: scroll_steps_def)

lemma clamped_combine:
  "combine_screenshots 2000 800 (viewport_shot 1920 800 0)
     [viewport_shot 1920 800 800, viewport_shot 1920 800 1200] = Inr clamped_composite"
  by (simp add: combine_screenshots_def image_new_def shot_size clamped_composite_def
        blank_canvas_def del: paste_sections.simps)

lemma stepped_combine:
  "combine_screenshots 2000 800 (viewport_shot 1920 800 0)
     [viewport_shot 1920 800 800, viewport_shot 1920 800 1600] = Inr stepped_composite"
  by (simp add: combine_screenshots_def image_new_def shot_size stepped_composite_def
        blank_canvas_def del: paste_sections.simps)

lemma clamped_stitch:
  "scroll_and_stitch (clamping_browser 1920 800 2000) 1920 800 2000 None None
     = Inr (Some clamped_composite)"
proof -
  have "set_window_size (clamping_browser 1920 800 2000) 1920 800 = None"
    by (simp add: clamping_browser_def scripted_simps)
  then show ?thesis
    by (simp add: scroll_and_stitch_def steps_2000 clamped_run clamped_combine save_to_def)
qed

text \<open>
  C2. Whenever the scroll and stitch path returns an image, the height of the image is
  the smaller of the measured document height and the viewport height times the number of
  sections the loop captured; so it is never more than the document height.
\<close>

theorem stitched_height_is_min:
  assumes "scroll_and_stitch d vw vh th out ms = Inr (Some img)"
  shows "\<exists>steps shots. scroll_steps th vh ms = Inr steps
           \<and> run_scroll_loop d vh steps = Inr shots \<and> shots \<noteq> []
           \<and> int (height img) = min th (vh * int (length shots))
           \<and> int (height img) \<le> th"
proof -
  from assms obtain steps first rest where
    s: "scroll_steps th vh ms = Inr steps" and
    r: "run_scroll_loop d vh steps = Inr (first # rest)" and
    c: "combine_screenshots th vh first rest = Inr img"
    by (auto simp: scroll_and_stitch_def
             split: option.splits sum.splits list.splits)
  from combine_screenshots_result(1) [OF c]
  have "int (height img) = min th (vh * int (length (first # rest)))" .
  with s r show ?thesis by fastforce
qed

theorem stitched_height_is_min_witness:
  "scroll_and_stitch (clamping_browser 1920 800 2000) 1920 800 2000 None None
     = Inr (Some clamped_composite)
   \<and> (\<exists>steps shots. scroll_steps 2000 800 None = Inr steps
         \<and> run_scroll_loop (clamping_browser 1920 800 2000) 800 steps = Inr shots \<and> shots \<noteq> []
         \<and> int (height clamped_composite) = min 2000 (800 * int (length shots))
         \<and> int (height clamped_composite) \<le> 2000)"
proof -
  have h: "scroll_and_stitch (clamping_browser 1920 800 2000) 1920 800 2000 None None
             = Inr (Some clamped_composite)"
    by (rule clamped_stitch)
  from h stitched_height_is_min [OF h] show ?thesis by blast
qed

lemma scripted_native:
  "native_capture (scripted_driver w vh th pos) a b out = Inl AttributeError"
  by (simp add: native_capture_def scripted_simps)

lemma stepped_stitch:
  "scroll_and_stitch (stepping_browser 1920 800 2000) 1920 800 2000 None None
     = Inr (Some stepped_composite)"
proof -
  have "set_window_size (stepping_browser 1920 800 2000) 1920 800 = None"
    by (simp add: stepping_browser_def scripted_simps)
  then show ?thesis
    by (simp add: scroll_and_stitch_def steps_2000 stepped_run stepped_combine save_to_def)
qed

lemma stepped_capture:
  "capture_full_page_screenshot (stepping_browser 1920 800 2000) url None None
     = Some stepped_composite"
proof -
  have "inner_width (stepping_browser 1920 800 2000) = 1920"
    "inner_height (stepping_browser 1920 800 2000) = 800"
    "document_height (stepping_browser 1920 800 2000) = 2000"
    "get_url (stepping_browser 1920 800 2000) url = None"
    "native_capture (stepping_browser 1920 800 2000) 1920 2000 None = Inl AttributeError"
    by (simp_all add: stepping_browser_def scripted_simps scripted_native)
  then show ?thesis
    by (simp add: capture_full_page_screenshot_def stepped_stitch)
qed

lemma combine_screenshots_pixels:
  assumes c: "combine_screenshots th vh first rest = Inr img"
  shows "\<forall>i x y. i < length (first # rest) \<longrightarrow> 0 \<le> x
          \<longrightarrow> x < int (width ((first # rest) ! i)) \<longrightarrow> x < int (width first)
          \<longrightarrow> 0 \<le> y \<longrightarrow> y < vh
          \<longrightarrow> y < paste_height ((first # rest) ! i)
                     (min th (vh * int (length (first # rest)))) (int i * vh)
          \<longrightarrow> pixel_at img x (int i * vh + y)
                = to_rgb (mode ((first # rest) ! i)) (pixel_at ((first # rest) ! i) x y)"
proof -
  define fh where "fh = min th (vh * int (length (first # rest)))"
  define shots where "shots = first # rest"
  define canvas where
    "canvas = \<lparr>mode = RGB, width = width first, height = nat fh, pixel_at = (\<lambda>x y. [0, 0, 0])\<rparr>"
  have img: "img = paste_sections vh fh 0 shots canvas"
    using combine_screenshots_result(4) [OF c] unfolding fh_def shots_def canvas_def .
  have vh: "0 \<le> vh" by (rule combine_screenshots_result(3) [OF c])
  have fh: "0 \<le> fh"
    using combine_screenshots_result(1) [OF c] unfolding fh_def by linarith
  have px: "pixel_at img x (int i * vh + y) = to_rgb (mode (shots ! i)) (pixel_at (shots ! i) x y)"
    if "i < length shots" "0 \<le> x" "x < int (width (shots ! i))" "x < int (width first)"
       "0 \<le> y" "y < vh" "y < paste_height (shots ! i) fh (int i * vh)" for i x y
  proof -
    have "pixel_at (paste_sections vh fh 0 shots canvas) x (int (0 + i) * vh + y)
          = to_rgb (mode (shots ! i)) (pixel_at (shots ! i) x y)"
      using that fh
      by (intro paste_sections_pixel [OF vh]) (simp_all add: canvas_def paste_height_def)
    then show ?thesis unfolding img by simp
  qed
  show ?thesis
    using px unfolding fh_def shots_def by blast
qed

text \<open>
  C4. The paste loop runs its body on the sections in order, section \<open>i\<close> under the index
  \<open>i\<close>. A section whose offset \<open>i * viewport_height\<close> lies above the final height is pasted
  at \<open>(0, i * viewport_height)\<close>, and what is pasted is its region of \<open>paste_height\<close> rows:
  the whole section when it ends within the final height, the remaining
  \<open>final_height - i * viewport_height\<close> rows when it would extend past it, so the region
  never reaches below the final height; a section whose offset does not lie above the
  final height is skipped. On any canvas, even a taller one, the loop therefore leaves
  every row from \<open>final_height\<close> on as it was. In the combined image, row \<open>y\<close> of section
  \<open>i\<close> is row \<open>i * viewport_height + y\<close> for every \<open>y\<close> below the paste height and the
  viewport height. For a document 2000 high behind a viewport 800 high with the offsets
  0, 800, 1600: three steps, three sections, a final height of \<open>min 2000 2400 = 2000\<close>, and
  the last section cut to \<open>2000 - 1600 = 400\<close> rows, its row 399 being the last row of the
  result.
\<close>

theorem sections_pasted_at_offsets_and_clipped:
  "paste_sections vh fh 0 shots c
     = foldl (\<lambda>c i. paste_section vh fh i (shots ! i) c) c [0..<length shots]
   \<and> (int i * vh < fh \<longrightarrow>
        paste_section vh fh i s c
          = paste c (section_region s (paste_height s fh (int i * vh))) (0, int i * vh)
        \<and> int (height (section_region s (paste_height s fh (int i * vh))))
            = paste_height s fh (int i * vh)
        \<and> width (section_region s (paste_height s fh (int i * vh))) = width s
        \<and> int i * vh + int (height (section_region s (paste_height s fh (int i * vh)))) \<le> fh
        \<and> (fh < int i * vh + int (height s)
              \<longrightarrow> paste_height s fh (int i * vh) = fh - int i * vh)
        \<and> (int i * vh + int (height s) \<le> fh
              \<longrightarrow> paste_height s fh (int i * vh) = int (height s))
        \<and> (0 \<le> x \<longrightarrow> x < int (width s) \<longrightarrow> 0 \<le> y
              \<longrightarrow> y < paste_height s fh (int i * vh)
              \<longrightarrow> pixel_at (section_region s (paste_height s fh (int i * vh))) x y
                    = pixel_at s x y))
   \<and> (\<not> int i * vh < fh \<longrightarrow> paste_section vh fh i s c = c)
   \<and> (fh \<le> row \<longrightarrow> pixel_at (paste_sections vh fh 0 shots c) x row = pixel_at c x row)
   \<and> (combine_screenshots th vh first rest = Inr img \<longrightarrow>
        int (height img) = min th (vh * int (length (first # rest)))
        \<and> (\<forall>i x y. i < length (first # rest) \<longrightarrow> 0 \<le> x
              \<longrightarrow> x < int (width ((first # rest) ! i)) \<longrightarrow> x < int (width first)
              \<longrightarrow> 0 \<le> y \<longrightarrow> y < vh
              \<longrightarrow> y < paste_height ((first # rest) ! i)
                         (min th (vh * int (length (first # rest)))) (int i * vh)
              \<longrightarrow> pixel_at img x (int i * vh + y)
                    = to_rgb (mode ((first # rest) ! i)) (pixel_at ((first # rest) ! i) x y)))
   \<and> scroll_steps 2000 800 None = Inr 3
   \<and> sections_captured (stepping_browser 1920 800 2000) None = Inr 3
   \<and> returned_height
        (capture_full_page_screenshot (stepping_browser 1920 800 2000) ''http://example.com''
           None None) = Some 2000
   \<and> paste_height (viewport_shot 1920 800 1600) (min 2000 (800 * 3)) (2 * 800) = 400
   \<and> height (section_region (viewport_shot 1920 800 1600)
               (paste_height (viewport_shot 1920 800 1600) (min 2000 (800 * 3)) (2 * 800)))
      = 400
   \<and> returned_pixel
        (capture_full_page_screenshot (stepping_browser 1920 800 2000) ''http://example.com''
           None None) 7 (2 * 800 + 399)
      = Some (to_rgb RGBA (pixel_at (viewport_shot 1920 800 1600) 7 399))"
proof (intro conjI impI)
  show "paste_sections vh fh 0 shots c
          = foldl (\<lambda>c i. paste_section vh fh i (shots ! i) c) c [0..<length shots]"
    using paste_sections_fold [of vh fh 0 shots c] by simp
next
  assume inside: "int i * vh < fh"
  show "paste_section vh fh i s c
          = paste c (section_region s (paste_height s fh (int i * vh))) (0, int i * vh)"
    using inside by (simp add: paste_section_def Let_def)
  show "int (height (section_region s (paste_height s fh (int i * vh))))
          = paste_height s fh (int i * vh)"
    using inside by (simp add: section_region_def crop_def paste_height_def)
  show "width (section_region s (paste_height s fh (int i * vh))) = width s"
    by (simp add: section_region_def crop_def)
  show "int i * vh + int (height (section_region s (paste_height s fh (int i * vh)))) \<le> fh"
    using inside by (simp add: section_region_def crop_def paste_height_def)
  show "paste_height s fh (int i * vh) = fh - int i * vh" if "fh < int i * vh + int (height s)"
    using that by (simp add: paste_height_def)
  show "paste_height s fh (int i * vh) = int (height s)" if "int i * vh + int (height s) \<le> fh"
    using that by (simp add: paste_height_def)
  show "pixel_at (section_region s (paste_height s fh (int i * vh))) x y = pixel_at s x y"
    if "0 \<le> x" "x < int (width s)" "0 \<le> y" "y < paste_height s fh (int i * vh)"
    using that by (simp add: section_region_def crop_def paste_height_def)
next
  assume "\<not> int i * vh < fh"
  then show "paste_section vh fh i s c = c" by (simp add: paste_section_def Let_def)
next
  assume "fh \<le> row"
  then show "pixel_at (paste_sections vh fh 0 shots c) x row = pixel_at c x row"
    by (rule paste_sections_beyond_final)
next
  assume c: "combine_screenshots th vh first rest = Inr img"
  show "int (height img) = min th (vh * int (length (first # rest)))"
    by (rule combine_screenshots_result(1) [OF c])
  show "\<forall>i x y. i < length (first # rest) \<longrightarrow> 0 \<le> x
          \<longrightarrow> x < int (width ((first # rest) ! i)) \<longrightarrow> x < int (width first)
          \<longrightarrow> 0 \<le> y \<longrightarrow> y < vh
          \<longrightarrow> y < paste_height ((first # rest) ! i)
                     (min th (vh * int (length (first # rest)))) (int i * vh)
          \<longrightarrow> pixel_at img x (int i * vh + y)
                = to_rgb (mode ((first # rest) ! i)) (pixel_at ((first # rest) ! i) x y)"
    by (rule combine_screenshots_pixels [OF c])
next
  show "scroll_steps 2000 800 None = Inr 3" by (rule steps_2000)
next
  have "inner_height (stepping_browser 1920 800 2000) = 800"
    "document_height (stepping_browser 1920 800 2000) = 2000"
    by (simp_all add: stepping_browser_def scripted_simps)
  then show "sections_captured (stepping_browser 1920 800 2000) None = Inr 3"
    by (simp add: sections_captured_def steps_2000 stepped_run)
next
  have "int (height stepped_composite) = min 2000 (800 * int (length
          (viewport_shot 1920 800 0 # [viewport_shot 1920 800 800, viewport_shot 1920 800 1600])))"
    by (rule combine_screenshots_result(1) [OF stepped_combine])
  then have "height stepped_composite = 2000" by simp
  then show "returned_height
        (capture_full_page_screenshot (stepping_browser 1920 800 2000) ''http://example.com''
           None None) = Some 2000"
    by (simp add: returned_height_def stepped_capture)
next
  show "paste_height (viewport_shot 1920 800 1600) (min 2000 (800 * 3)) (2 * 800) = 400"
    by (simp add: paste_height_def shot_size)
next
  show "height (section_region (viewport_shot 1920 800 1600)
               (paste_height (viewport_shot 1920 800 1600) (min 2000 (800 * 3)) (2 * 800)))
          = 400"
    by (simp add: section_region_def crop_def paste_height_def shot_size)
next
  from combine_screenshots_pixels [OF stepped_combine, rule_format, of 2 7 399]
  have "pixel_at stepped_composite 7 (2 * 800 + 399)
        = to_rgb RGBA (pixel_at (viewport_shot 1920 800 1600) 7 399)"
    by (simp add: shot_size paste_height_def)
  then show "returned_pixel
        (capture_full_page_screenshot (stepping_browser 1920 800 2000) ''http://example.com''
           None None) 7 (2 * 800 + 399)
      = Some (to_rgb RGBA (pixel_at (viewport_shot 1920 800 1600) 7 399))"
    by (simp add: returned_pixel_def stepped_capture)
qed

theorem sections_pasted_at_offsets_and_clipped_witness:
  "int 2 * 800 < 2000
   \<and> paste_section 800 2000 2 (viewport_shot 1920 800 1200) (blank_canvas 1920 2400)
       = paste (blank_canvas 1920 2400)
           (section_region (viewport_shot 1920 800 1200)
              (paste_height (viewport_shot 1920 800 1200) 2000 (int 2 * 800)))
           (0, int 2 * 800)
   \<and> 2000 < int 2 * 800 + int (height (viewport_shot 1920 800 1200))
   \<and> paste_height (viewport_shot 1920 800 1200) 2000 (int 2 * 800) = 2000 - int 2 * 800
   \<and> int (height (section_region (viewport_shot 1920 800 1200)
                    (paste_height (viewport_shot 1920 800 1200) 2000 (int 2 * 800))))
       = 400
   \<and> (0::int) \<le> 7 \<and> 7 < int (width (viewport_shot 1920 800 1200)) \<and> (0::int) \<le> 399
   \<and> 399 < paste_height (viewport_shot 1920 800 1200) 2000 (int 2 * 800)
   \<and> pixel_at (section_region (viewport_shot 1920 800 1200)
                  (paste_height (viewport_shot 1920 800 1200) 2000 (int 2 * 800))) 7 399
       = pixel_at (viewport_shot 1920 800 1200) 7 399
   \<and> \<not> int 3 * 800 < 2000
   \<and> paste_section 800 2000 3 (viewport_shot 1920 800 1200) (blank_canvas 1920 2400)
       = blank_canvas 1920 2400
   \<and> (2000::int) \<le> 2100
   \<and> pixel_at
        (paste_sections 800 2000 0
           [viewport_shot 1920 800 0, viewport_shot 1920 800 800, viewport_shot 1920 800 1200]
           (blank_canvas 1920 2400)) 7 2100
       = pixel_at (blank_canvas 1920 2400) 7 2100
   \<and> combine_screenshots 2000 800 (viewport_shot 1920 800 0)
        [viewport_shot 1920 800 800, viewport_shot 1920 800 1200] = Inr clamped_composite
   \<and> int (height clamped_composite) = 2000
   \<and> pixel_at clamped_composite 7 (int 1 * 800 + 5) = to_rgb RGBA (page_pixel 7 805)
   \<and> pixel_at clamped_composite 7 (int 2 * 800 + 399) = to_rgb RGBA (page_pixel 7 1599)"
proof -
  let ?s = "viewport_shot 1920 800 1200"
  let ?c = "blank_canvas 1920 2400"
  let ?shots = "[viewport_shot 1920 800 0, viewport_shot 1920 800 800, viewport_shot 1920 800 1200]"
  note t2 = sections_pasted_at_offsets_and_clipped
              [where vh = 800 and fh = 2000 and shots = ?shots and c = ?c and i = 2 and s = ?s
                 and x = 7 and y = 399 and row = 2100 and th = 2000
                 and first = "viewport_shot 1920 800 0"
                 and rest = "[viewport_shot 1920 800 800, viewport_shot 1920 800 1200]"
                 and img = clamped_composite]
  note t3 = sections_pasted_at_offsets_and_clipped
              [where vh = 800 and fh = 2000 and shots = ?shots and c = ?c and i = 3 and s = ?s
                 and x = 7 and y = 399 and row = 2100 and th = 2000
                 and first = "viewport_shot 1920 800 0"
                 and rest = "[viewport_shot 1920 800 800, viewport_shot 1920 800 1200]"
                 and img = clamped_composite]
  have h1: "int 2 * 800 < 2000" by simp
  note r = t2 [THEN conjunct2, THEN conjunct1, THEN mp, OF h1]
  have a1: "paste_section 800 2000 2 ?s ?c
              = paste ?c (section_region ?s (paste_height ?s 2000 (int 2 * 800))) (0, int 2 * 800)"
    by (rule r [THEN conjunct1])
  have h2: "2000 < int 2 * 800 + int (height ?s)" by (simp add: shot_size)
  have a2: "paste_height ?s 2000 (int 2 * 800) = 2000 - int 2 * 800"
    by (rule r [THEN conjunct2, THEN conjunct2, THEN conjunct2, THEN conjunct2,
                THEN conjunct1, THEN mp, OF h2])
  have "int (height (section_region ?s (paste_height ?s 2000 (int 2 * 800))))
          = paste_height ?s 2000 (int 2 * 800)"
    by (rule r [THEN conjunct2, THEN conjunct1])
  with a2 have a3: "int (height (section_region ?s (paste_height ?s 2000 (int 2 * 800)))) = 400"
    by simp
  have h3: "(0::int) \<le> 7" and h4: "7 < int (width ?s)" and h5: "(0::int) \<le> 399"
    by (simp_all add: shot_size)
  have h6: "399 < paste_height ?s 2000 (int 2 * 800)" using a2 by simp
  have a4: "pixel_at (section_region ?s (paste_height ?s 2000 (int 2 * 800))) 7 399
              = pixel_at ?s 7 399"
    by (rule r [THEN conjunct2, THEN conjunct2, THEN conjunct2, THEN conjunct2,
                THEN conjunct2, THEN conjunct2, THEN mp, OF h3, THEN mp, OF h4,
                THEN mp, OF h5, THEN mp, OF h6])
  have h7: "\<not> int 3 * 800 < 2000" by simp
  have a5: "paste_section 800 2000 3 ?s ?c = ?c"
    by (rule t3 [THEN conjunct2, THEN conjunct2, THEN conjunct1, THEN mp, OF h7])
  have h8: "(2000::int) \<le> 2100" by simp
  have a6: "pixel_at (paste_sections 800 2000 0 ?shots ?c) 7 2100 = pixel_at ?c 7 2100"
    by (rule t2 [THEN conjunct2, THEN conjunct2, THEN conjunct2, THEN conjunct1,
                 THEN mp, OF h8])
  note k = t2 [THEN conjunct2, THEN conjunct2, THEN conjunct2, THEN conjunct2,
               THEN conjunct1, THEN mp, OF clamped_combine]
  from k have a7: "int (height clamped_composite) = 2000" by simp
  from k [THEN conjunct2, rule_format, of 1 7 5]
  have a8: "pixel_at clamped_composite 7 (int 1 * 800 + 5) = to_rgb RGBA (page_pixel 7 805)"
    by (simp add: shot_size paste_height_def)
  from k [THEN conjunct2, rule_format, of 2 7 399]
  have a9: "pixel_at clamped_composite 7 (int 2 * 800 + 399) = to_rgb RGBA (page_pixel 7 1599)"
    by (simp add: shot_size paste_height_def)
  from h1 a1 h2 a2 a3 h3 h4 h5 h6 a4 h7 a5 h8 a6 clamped_combine a7 a8 a9
  show ?thesis by (intro conjI)
qed

subsection \<open>Step counts and further example runs\<close>

lemma upt2: "[0..<2] = [0, 1::nat]" by (simp add: upt_rec)

lemma short_page_steps:
  assumes "0 < vh" "0 \<le> th" "th \<le> vh" "\<forall>c. max_scroll = Some c \<longrightarrow> 0 \<le> c"
  shows "scroll_steps th vh max_scroll = Inr 1 \<or> scroll_steps th vh max_scroll = Inr 2 \<and> th = vh"
proof (cases "th = vh")
  case True
  with assms(1) have "th div vh + 1 = 2" by simp
  with assms(1,4) True show ?thesis
    by (cases max_scroll) (auto simp: scroll_steps_def Let_def)
next
  case False
  with assms have "th div vh + 1 = 1" by simp
  with assms(1,4) show ?thesis
    by (cases max_scroll) (auto simp: scroll_steps_def Let_def)
qed

lemma clamping_simps:
  "scroll_and_read (clamping_browser w vh th) i y = Inr (max 0 (min y (th - vh)))"
  "get_screenshot_as_png (clamping_browser w vh th) i
     = Inr (viewport_shot w vh (max 0 (min (int i * vh) (th - vh))))"
  "get_url (clamping_browser w vh th) u = None"
  "set_window_size (clamping_browser w vh th) a b = None"
  "save_image (clamping_browser w vh th) p im = None"
  "get_full_page_screenshot_as_png (clamping_browser w vh th) = Inl AttributeError"
  "inner_width (clamping_browser w vh th) = w"
  "inner_height (clamping_browser w vh th) = vh"
  "document_height (clamping_browser w vh th) = th"
  "native_capture (clamping_browser w vh th) a b out = Inl AttributeError"
  by (simp_all add: clamping_browser_def scripted_simps scripted_native)

lemma run_scroll_loop_length:
  assumes "run_scroll_loop d vh steps = Inr shots"
  shows "int (length shots) \<le> max 0 steps"
proof -
  from assms have "capture_sections d vh [0..<nat steps] 0 [] = Inr shots"
    by (simp add: run_scroll_loop_def)
  from capture_sections_extends [OF this] have "length shots \<le> nat steps" by auto
  then show ?thesis by linarith
qed

lemma ceil_div_floor:
  assumes "0 < vh"
  shows "th div vh + 1 = (if vh dvd th then ceil_div th vh + 1 else ceil_div th vh)"
proof -
  have c: "ceil_div th vh = - ((- th) div vh)"
    unfolding ceil_div_def by (rule ceiling_divide_eq_div)
  from assms have nz: "vh \<noteq> 0" by simp
  show ?thesis
    unfolding c using zdiv_zminus1_eq_if [OF nz, of th]
    by (auto simp: dvd_eq_mod_eq_0)
qed


subsection \<open>The planned number of steps\<close>

text \<open>
  C1, as the code has it. Without a cap and with a positive viewport height the loop
  plans \<open>total_height div viewport_height + 1\<close> steps. That is \<open>ceil(total_height /
  viewport_height)\<close> when the viewport height does not divide the document height, and
  one more when it does. For a document exactly three viewports high it plans four
  steps; when the browser stops scrolling at the bottom of the page, the fourth step
  reads the offset of the third again and the loop ends on it, so the run holds exactly
  the three sections of the first three steps and the combined image is as high as the
  document.
\<close>

theorem planned_steps_floor_plus_one:
  assumes "0 < vh"
  shows "scroll_steps th vh None = Inr (th div vh + 1)
     \<and> th div vh + 1 = (if vh dvd th then ceil_div th vh + 1 else ceil_div th vh)
     \<and> (th = 3 * vh \<longrightarrow> scrolling_stops_at_bottom d th vh
          \<longrightarrow> (\<forall>i < 3. get_screenshot_as_png d i = Inr (s i))
          \<longrightarrow> scroll_steps th vh None = Inr 4
              \<and> run_scroll_loop d vh 4 = Inr [s 0, s 1, s 2]
              \<and> (\<exists>c. combine_screenshots th vh (s 0) [s 1, s 2] = Inr c
                     \<and> int (height c) = th))"
proof (intro conjI impI)
  show plan: "scroll_steps th vh None = Inr (th div vh + 1)"
    using assms by (simp add: scroll_steps_def)
  show "th div vh + 1 = (if vh dvd th then ceil_div th vh + 1 else ceil_div th vh)"
    by (rule ceil_div_floor [OF assms])
  assume th: "th = 3 * vh" and b: "scrolling_stops_at_bottom d th vh"
    and g: "\<forall>i < 3. get_screenshot_as_png d i = Inr (s i)"
  show "scroll_steps th vh None = Inr 4"
    using plan th assms by simp
  have rd: "scroll_and_read d i y = Inr (max 0 (min y (2 * vh)))" for i y
    using b th unfolding scrolling_stops_at_bottom_def by simp
  have shots: "get_screenshot_as_png d 0 = Inr (s 0)"
    "get_screenshot_as_png d (Suc 0) = Inr (s (Suc 0))"
    "get_screenshot_as_png d 2 = Inr (s 2)"
    using g by simp_all
  show "run_scroll_loop d vh 4 = Inr [s 0, s 1, s 2]"
    using assms by (simp add: run_scroll_loop_def upt4 rd shots)
  have "image_new (int (width (s 0))) th
          = Inr \<lparr>mode = RGB, width = width (s 0), height = nat th, pixel_at = (\<lambda>x y. [0, 0, 0])\<rparr>"
    using assms th by (simp add: image_new_def)
  then obtain c where c: "combine_screenshots th vh (s 0) [s 1, s 2] = Inr c"
    using th by (simp add: combine_screenshots_def Let_def del: paste_sections.simps)
  from combine_screenshots_result(1) [OF c] th have "int (height c) = th" by simp
  with c show "\<exists>c. combine_screenshots th vh (s 0) [s 1, s 2] = Inr c \<and> int (height c) = th"
    by blast
qed

theorem planned_steps_floor_plus_one_witness:
  "(0::int) < 800 \<and> (2400::int) = 3 * 800
   \<and> scrolling_stops_at_bottom (clamping_browser 1920 800 2400) 2400 800
   \<and> get_screenshot_as_png (clamping_browser 1920 800 2400) 0
       = Inr (viewport_shot 1920 800 (int 0 * 800))
   \<and> get_screenshot_as_png (clamping_browser 1920 800 2400) 1
       = Inr (viewport_shot 1920 800 (int 1 * 800))
   \<and> get_screenshot_as_png (clamping_browser 1920 800 2400) 2
       = Inr (viewport_shot 1920 800 (int 2 * 800))
   \<and> scroll_steps 2400 800 None = Inr 4
   \<and> (2400::int) div 800 + 1 = ceil_div 2400 800 + 1
   \<and> run_scroll_loop (clamping_browser 1920 800 2400) 800 4
        = Inr [viewport_shot 1920 800 (int 0 * 800), viewport_shot 1920 800 (int 1 * 800),
               viewport_shot 1920 800 (int 2 * 800)]
   \<and> (\<exists>c. combine_screenshots 2400 800 (viewport_shot 1920 800 (int 0 * 800))
               [viewport_shot 1920 800 (int 1 * 800), viewport_shot 1920 800 (int 2 * 800)]
               = Inr c
            \<and> int (height c) = 2400)"
proof -
  have h1: "(0::int) < 800" by simp
  have h2: "(2400::int) = 3 * 800" by simp
  have h3: "scrolling_stops_at_bottom (clamping_browser 1920 800 2400) 2400 800"
    by (simp add: scrolling_stops_at_bottom_def clamping_simps)
  have h4: "\<forall>i < 3. get_screenshot_as_png (clamping_browser 1920 800 2400) i
                      = Inr (viewport_shot 1920 800 (int i * 800))"
  proof (intro allI impI)
    fix i :: nat assume "i < 3"
    then have "max 0 (min (int i * 800) (2400 - 800)) = int i * 800" by simp
    then show "get_screenshot_as_png (clamping_browser 1920 800 2400) i
                 = Inr (viewport_shot 1920 800 (int i * 800))"
      by (simp only: clamping_simps)
  qed
  note t = planned_steps_floor_plus_one
             [OF h1, of 2400 "clamping_browser 1920 800 2400"
                 "\<lambda>i. viewport_shot 1920 800 (int i * 800)"]
  from t have a: "(2400::int) div 800 + 1 = ceil_div 2400 800 + 1" by simp
  from t h2 h3 h4 have b: "scroll_steps 2400 800 None = Inr 4
     \<and> run_scroll_loop (clamping_browser 1920 800 2400) 800 4
        = Inr [viewport_shot 1920 800 (int 0 * 800), viewport_shot 1920 800 (int 1 * 800),
               viewport_shot 1920 800 (int 2 * 800)]
     \<and> (\<exists>c. combine_screenshots 2400 800 (viewport_shot 1920 800 (int 0 * 800))
               [viewport_shot 1920 800 (int 1 * 800), viewport_shot 1920 800 (int 2 * 800)]
               = Inr c
            \<and> int (height c) = 2400)"
    by (elim conjE) (drule (1) mp, drule (1) mp, drule (1) mp, assumption)
  from h4 have g0: "get_screenshot_as_png (clamping_browser 1920 800 2400) 0
                      = Inr (viewport_shot 1920 800 (int 0 * 800))"
    and g1: "get_screenshot_as_png (clamping_browser 1920 800 2400) 1
               = Inr (viewport_shot 1920 800 (int 1 * 800))"
    and g2: "get_screenshot_as_png (clamping_browser 1920 800 2400) 2
               = Inr (viewport_shot 1920 800 (int 2 * 800))"
    by simp_all
  from h1 h2 h3 g0 g1 g2 a b show ?thesis by (intro conjI) (elim conjE, assumption)+
qed

text \<open>
  C1 as stated fails: for a document three viewports of 800 high the loop plans four
  steps, and \<open>ceil(2400 / 800)\<close> is three.
\<close>

theorem planned_steps_not_ceiling:
  "scroll_steps (3 * 800) 800 None = Inr 4 \<and> ceil_div (3 * 800) 800 = 3
   \<and> scroll_steps (3 * 800) 800 None \<noteq> Inr (ceil_div (3 * 800) 800)"
  by (simp add: scroll_steps_def ceil_div_def)

subsection \<open>A page no taller than the viewport\<close>

text \<open>
  C5. For every page whose document height is at most the (positive) viewport height,
  hence a page that cannot scroll, so that every offset the browser reports is 0, the
  scroll and stitch path captures exactly one section, the screenshot of the first step,
  and the combined image is exactly as high as the document; the path returns that image
  when the window resize and the optional save succeed. A negative cap is excluded: it
  plans no step at all.
\<close>

theorem short_page_single_section:
  assumes "0 < vh" and "0 \<le> th" and "th \<le> vh"
    and "offsets_in_scroll_range d th vh"
    and "get_screenshot_as_png d 0 = Inr img0"
    and "\<forall>c. max_scroll = Some c \<longrightarrow> 0 \<le> c"
  shows "\<exists>steps c. scroll_steps th vh max_scroll = Inr steps
           \<and> run_scroll_loop d vh steps = Inr [img0]
           \<and> combine_screenshots th vh img0 [] = Inr c
           \<and> int (height c) = th
           \<and> (set_window_size d vw vh = None \<longrightarrow> save_to d out c = None
                \<longrightarrow> scroll_and_stitch d vw vh th out max_scroll = Inr (Some c))"
proof -
  have zero: "scroll_and_read d i y = Inr 0" for i y
  proof -
    from assms(4) obtain r where "scroll_and_read d i y = Inr r" "0 \<le> r"
      "r \<le> max 0 (th - vh)"
      unfolding offsets_in_scroll_range_def by blast
    with assms(3) show ?thesis by simp
  qed
  have one: "run_scroll_loop d vh 1 = Inr [img0]"
    by (simp add: run_scroll_loop_def zero assms(5))
  have two: "run_scroll_loop d vh 2 = Inr [img0]"
    by (simp add: run_scroll_loop_def upt2 zero assms(5))
  from short_page_steps [OF assms(1,2,3,6)] obtain steps where
    s: "scroll_steps th vh max_scroll = Inr steps" and r: "run_scroll_loop d vh steps = Inr [img0]"
    using one two by blast
  have "image_new (int (width img0)) th
          = Inr \<lparr>mode = RGB, width = width img0, height = nat th, pixel_at = (\<lambda>x y. [0, 0, 0])\<rparr>"
    using assms(2) by (simp add: image_new_def)
  then obtain c where c: "combine_screenshots th vh img0 [] = Inr c"
    using assms(3) by (simp add: combine_screenshots_def Let_def min_def del: paste_sections.simps)
  from combine_screenshots_result(1) [OF c] assms(3)
  have h: "int (height c) = th" by simp
  have imp: "set_window_size d vw vh = None \<longrightarrow> save_to d out c = None
        \<longrightarrow> scroll_and_stitch d vw vh th out max_scroll = Inr (Some c)"
    using s r c by (simp add: scroll_and_stitch_def)
  show ?thesis
  proof (intro exI conjI)
    show "scroll_steps th vh max_scroll = Inr steps" by (rule s)
    show "run_scroll_loop d vh steps = Inr [img0]" by (rule r)
    show "combine_screenshots th vh img0 [] = Inr c" by (rule c)
    show "int (height c) = th" by (rule h)
    show "set_window_size d vw vh = None \<longrightarrow> save_to d out c = None
        \<longrightarrow> scroll_and_stitch d vw vh th out max_scroll = Inr (Some c)" by (rule imp)
  qed
qed

theorem short_page_single_section_witness:
  "(0::int) < 800 \<and> (0::int) \<le> 800 \<and> (800::int) \<le> 800
   \<and> offsets_in_scroll_range (clamping_browser 1920 800 800) 800 800
   \<and> get_screenshot_as_png (clamping_browser 1920 800 800) 0 = Inr (viewport_shot 1920 800 0)
   \<and> set_window_size (clamping_browser 1920 800 800) 1920 800 = None
   \<and> save_to (clamping_browser 1920 800 800) None short_composite = None
   \<and> scroll_steps 800 800 None = Inr 2
   \<and> run_scroll_loop (clamping_browser 1920 800 800) 800 2 = Inr [viewport_shot 1920 800 0]
   \<and> scroll_and_stitch (clamping_browser 1920 800 800) 1920 800 800 None None
        = Inr (Some short_composite)
   \<and> int (height short_composite) = 800"
proof -
  have h1: "(0::int) < 800" and h2: "(0::int) \<le> 800" and h3: "(800::int) \<le> 800"
    by simp_all
  have h4: "offsets_in_scroll_range (clamping_browser 1920 800 800) 800 800"
    by (simp add: offsets_in_scroll_range_def clamping_simps)
  have h5: "get_screenshot_as_png (clamping_browser 1920 800 800) 0
              = Inr (viewport_shot 1920 800 0)"
    by (simp add: clamping_simps)
  have h6: "\<forall>c. (None::int option) = Some c \<longrightarrow> 0 \<le> c" by simp
  have h7: "set_window_size (clamping_browser 1920 800 800) 1920 800 = None"
    by (simp add: clamping_simps)
  have h8: "save_to (clamping_browser 1920 800 800) None short_composite = None"
    by (simp add: save_to_def)
  have s: "scroll_steps 800 800 None = Inr 2" by (simp add: scroll_steps_def)
  have cmb: "combine_screenshots 800 800 (viewport_shot 1920 800 0) [] = Inr short_composite"
    by (simp add: combine_screenshots_def image_new_def shot_size short_composite_def
          blank_canvas_def del: paste_sections.simps)
  from short_page_single_section [OF h1 h2 h3 h4 h5 h6, of 1920 None] obtain steps c where
    t: "scroll_steps 800 800 None = Inr steps"
       "run_scroll_loop (clamping_browser 1920 800 800) 800 steps = Inr [viewport_shot 1920 800 0]"
       "combine_screenshots 800 800 (viewport_shot 1920 800 0) [] = Inr c"
       "int (height c) = 800"
       "set_window_size (clamping_browser 1920 800 800) 1920 800 = None
          \<longrightarrow> save_to (clamping_browser 1920 800 800) None c = None
          \<longrightarrow> scroll_and_stitch (clamping_browser 1920 800 800) 1920 800 800 None None
                = Inr (Some c)"
    by (elim exE conjE) (rule that)
  from t(1) s have steps: "steps = 2" by simp
  from t(3) cmb have c: "c = short_composite" by simp
  from t(2) steps have r: "run_scroll_loop (clamping_browser 1920 800 800) 800 2
                             = Inr [viewport_shot 1920 800 0]" by simp
  from t(5) c h7 h8 have st: "scroll_and_stitch (clamping_browser 1920 800 800) 1920 800 800
                                None None = Inr (Some short_composite)" by simp
  from t(4) c have ht: "int (height short_composite) = 800" by simp
  from h1 h2 h3 h4 h5 h7 h8 s r st ht show ?thesis by (intro conjI)
qed

subsection \<open>No section captured\<close>




subsection \<open>Native capture and the fallback\<close>




subsection \<open>The cap on the number of sections\<close>

lemma capture_sections_total:
  assumes "\<forall>i y. \<exists>r. scroll_and_read d i y = Inr r"
    and "\<forall>i. \<exists>s. get_screenshot_as_png d i = Inr s"
  shows "\<exists>res. capture_sections d vh js l acc = Inr res \<and> length acc \<le> length res"
proof (induction js arbitrary: l acc)
  case Nil
  then show ?case by simp
next
  case (Cons j rest)
  from assms obtain cur img where
    rd: "scroll_and_read d j (int j * vh) = Inr cur" and
    shot: "get_screenshot_as_png d j = Inr img"
    by meson
  show ?case
  proof (cases "cur = l \<and> j > 0")
    case True
    with rd show ?thesis by simp
  next
    case False
    from Cons.IH [of cur "acc @ [img]"] obtain res where
      "capture_sections d vh rest cur (acc @ [img]) = Inr res" "length (acc @ [img]) \<le> length res"
      by blast
    with rd shot False show ?thesis by auto
  qed
qed

lemma run_scroll_loop_first_section:
  assumes "\<forall>i y. \<exists>r. scroll_and_read d i y = Inr r"
    and "\<forall>i. \<exists>s. get_screenshot_as_png d i = Inr s"
    and "1 \<le> steps"
  shows "\<exists>first rest. run_scroll_loop d vh steps = Inr (first # rest)"
proof -
  from assms(3) have u: "[0..<nat steps] = 0 # [Suc 0..<nat steps]"
    by (simp add: upt_conv_Cons)
  from assms obtain cur img where
    rd: "scroll_and_read d 0 (int 0 * vh) = Inr cur" and
    shot: "get_screenshot_as_png d 0 = Inr img"
    by meson
  from capture_sections_total [OF assms(1,2), of vh "[Suc 0..<nat steps]" cur "[] @ [img]"]
  obtain res where
    r: "capture_sections d vh [Suc 0..<nat steps] cur ([] @ [img]) = Inr res"
    and len: "length ([] @ [img]) \<le> length res"
    by blast
  from len obtain first rest where "res = first # rest" by (cases res) auto
  with r rd shot u show ?thesis
    by (simp add: run_scroll_loop_def del: upt_Suc)
qed

lemma zero_cap_reads_as_no_cap:
  "scroll_steps th vh (Some 0) = scroll_steps th vh None"
  by (simp add: scroll_steps_def)

text \<open>
  C8. With a cap \<open>m\<close> given (a positive number; the guard \<^verbatim>\<open>if max_scroll and ...\<close> reads 0
  as no cap) the loop plans \<open>min m (total_height div viewport_height + 1)\<close> steps, at most
  \<open>m\<close>; so it captures at most \<open>m\<close> sections, and every image the scroll and stitch path
  returns is at most \<open>m * viewport_height\<close> high. The cap truncates without failing: on a
  page of non-negative height behind a viewport of positive height, in a session whose
  driver calls and save succeed, the path returns an image of at least one and at most
  \<open>m\<close> sections.
\<close>

theorem positive_cap_bounds_sections:
  assumes "0 < m"
  shows "(vh \<noteq> 0 \<longrightarrow> scroll_steps th vh (Some m) = Inr (min m (th div vh + 1)))
     \<and> (\<forall>steps. scroll_steps th vh (Some m) = Inr steps \<longrightarrow> steps \<le> m)
     \<and> (\<forall>steps shots. scroll_steps th vh (Some m) = Inr steps
           \<longrightarrow> run_scroll_loop d vh steps = Inr shots \<longrightarrow> int (length shots) \<le> m)
     \<and> (\<forall>img. scroll_and_stitch d vw vh th out (Some m) = Inr (Some img)
           \<longrightarrow> int (height img) \<le> m * vh)
     \<and> (0 < vh \<longrightarrow> 0 \<le> th
           \<longrightarrow> (\<forall>i y. \<exists>r. scroll_and_read d i y = Inr r)
           \<longrightarrow> (\<forall>i. \<exists>s. get_screenshot_as_png d i = Inr s)
           \<longrightarrow> set_window_size d vw vh = None
           \<longrightarrow> (\<forall>c. save_to d out c = None)
           \<longrightarrow> (\<exists>img shots.
                  scroll_and_stitch d vw vh th out (Some m) = Inr (Some img)
                  \<and> run_scroll_loop d vh (min m (th div vh + 1)) = Inr shots
                  \<and> 1 \<le> length shots \<and> int (length shots) \<le> m
                  \<and> int (height img) = min th (vh * int (length shots))
                  \<and> int (height img) \<le> m * vh))"
proof -
  have plan: "scroll_steps th vh (Some m) = Inr (min m (th div vh + 1))" if "vh \<noteq> 0"
    using that assms by (simp add: scroll_steps_def Let_def min_def)
  have steps_le: "steps \<le> m" if "scroll_steps th vh (Some m) = Inr steps" for steps
    using that assms by (auto simp: scroll_steps_def Let_def split: if_splits)
  have len_le: "int (length shots) \<le> m"
    if "scroll_steps th vh (Some m) = Inr steps" "run_scroll_loop d vh steps = Inr shots"
    for steps shots
    using run_scroll_loop_length [OF that(2)] steps_le [OF that(1)] assms by linarith
  have height_le: "int (height img) \<le> m * vh"
    if "scroll_and_stitch d vw vh th out (Some m) = Inr (Some img)" for img
  proof -
    from that obtain steps first rest where
      s: "scroll_steps th vh (Some m) = Inr steps" and
      r: "run_scroll_loop d vh steps = Inr (first # rest)" and
      c: "combine_screenshots th vh first rest = Inr img"
      by (auto simp: scroll_and_stitch_def split: option.splits sum.splits list.splits)
    have vh: "0 \<le> vh" by (rule combine_screenshots_result(3) [OF c])
    have "int (height img) \<le> vh * int (length (first # rest))"
      using combine_screenshots_result(1) [OF c] by linarith
    also have "\<dots> \<le> vh * m"
      using len_le [OF s r] vh by (intro mult_left_mono) simp_all
    finally show ?thesis by (simp add: mult.commute)
  qed
  have valid: "\<exists>img shots.
                  scroll_and_stitch d vw vh th out (Some m) = Inr (Some img)
                  \<and> run_scroll_loop d vh (min m (th div vh + 1)) = Inr shots
                  \<and> 1 \<le> length shots \<and> int (length shots) \<le> m
                  \<and> int (height img) = min th (vh * int (length shots))
                  \<and> int (height img) \<le> m * vh"
    if vh: "0 < vh" and th: "0 \<le> th"
      and rd: "\<forall>i y. \<exists>r. scroll_and_read d i y = Inr r"
      and sh: "\<forall>i. \<exists>s. get_screenshot_as_png d i = Inr s"
      and w: "set_window_size d vw vh = None"
      and sv: "\<forall>c. save_to d out c = None"
  proof -
    let ?steps = "min m (th div vh + 1)"
    have s: "scroll_steps th vh (Some m) = Inr ?steps" using plan vh by simp
    have "0 \<le> th div vh" using vh th by (simp add: pos_imp_zdiv_nonneg_iff)
    with assms have one: "1 \<le> ?steps" by simp
    from run_scroll_loop_first_section [OF rd sh one] obtain first rest where
      r: "run_scroll_loop d vh ?steps = Inr (first # rest)" by blast
    define fh where "fh = min th (vh * int (length (first # rest)))"
    have "0 \<le> fh" unfolding fh_def using vh th by simp
    then have new: "image_new (int (width first)) fh
                 = Inr \<lparr>mode = RGB, width = width first, height = nat fh,
                        pixel_at = (\<lambda>x y. [0, 0, 0])\<rparr>"
      by (simp add: image_new_def)
    have "combine_screenshots th vh first rest
            = (case image_new (int (width first)) fh of
                 Inl e \<Rightarrow> Inl e
               | Inr c \<Rightarrow> Inr (paste_sections vh fh 0 (first # rest) c))"
      unfolding combine_screenshots_def Let_def fh_def ..
    then obtain img where c: "combine_screenshots th vh first rest = Inr img"
      by (simp add: new del: paste_sections.simps)
    have st: "scroll_and_stitch d vw vh th out (Some m) = Inr (Some img)"
      using w s r c sv by (simp add: scroll_and_stitch_def)
    show ?thesis
    proof (intro exI conjI)
      show "scroll_and_stitch d vw vh th out (Some m) = Inr (Some img)" by (rule st)
      show "run_scroll_loop d vh ?steps = Inr (first # rest)" by (rule r)
      show "1 \<le> length (first # rest)" by simp
      show "int (length (first # rest)) \<le> m" by (rule len_le [OF s r])
      show "int (height img) = min th (vh * int (length (first # rest)))"
        by (rule combine_screenshots_result(1) [OF c])
      show "int (height img) \<le> m * vh" by (rule height_le [OF st])
    qed
  qed
  show ?thesis
  proof (intro conjI impI allI)
    show "scroll_steps th vh (Some m) = Inr (min m (th div vh + 1))" if "vh \<noteq> 0"
      by (rule plan [OF that])
    show "steps \<le> m" if "scroll_steps th vh (Some m) = Inr steps" for steps
      by (rule steps_le [OF that])
    show "int (length shots) \<le> m"
      if "scroll_steps th vh (Some m) = Inr steps" "run_scroll_loop d vh steps = Inr shots"
      for steps shots
      by (rule len_le [OF that])
    show "int (height img) \<le> m * vh"
      if "scroll_and_stitch d vw vh th out (Some m) = Inr (Some img)" for img
      by (rule height_le [OF that])
    show "\<exists>img shots.
                  scroll_and_stitch d vw vh th out (Some m) = Inr (Some img)
                  \<and> run_scroll_loop d vh (min m (th div vh + 1)) = Inr shots
                  \<and> 1 \<le> length shots \<and> int (length shots) \<le> m
                  \<and> int (height img) = min th (vh * int (length shots))
                  \<and> int (height img) \<le> m * vh"
      if "0 < vh" "0 \<le> th" "\<forall>i y. \<exists>r. scroll_and_read d i y = Inr r"
        "\<forall>i. \<exists>s. get_screenshot_as_png d i = Inr s" "set_window_size d vw vh = None"
        "\<forall>c. save_to d out c = None"
      by (rule valid [OF that])
  qed
qed

theorem positive_cap_bounds_sections_witness:
  "(0::int) < 2 \<and> (800::int) \<noteq> 0
   \<and> scroll_steps 2400 800 (Some 2) = Inr (min 2 (2400 div 800 + 1))
   \<and> scroll_steps 2400 800 (Some 2) = Inr 2
   \<and> run_scroll_loop (clamping_browser 1920 800 2400) 800 2
        = Inr [viewport_shot 1920 800 0, viewport_shot 1920 800 800]
   \<and> scroll_and_stitch (clamping_browser 1920 800 2400) 1920 800 2400 None (Some 2)
        = Inr (Some capped_composite)
   \<and> (2::int) \<le> 2
   \<and> int (length [viewport_shot 1920 800 0, viewport_shot 1920 800 800]) \<le> 2
   \<and> int (height capped_composite) \<le> 2 * 800
   \<and> (0::int) < 800 \<and> (0::int) \<le> 2400
   \<and> (\<forall>i y. \<exists>r. scroll_and_read (clamping_browser 1920 800 2400) i y = Inr r)
   \<and> (\<forall>i. \<exists>s. get_screenshot_as_png (clamping_browser 1920 800 2400) i = Inr s)
   \<and> set_window_size (clamping_browser 1920 800 2400) 1920 800 = None
   \<and> (\<forall>c. save_to (clamping_browser 1920 800 2400) None c = None)
   \<and> (\<exists>img shots.
         scroll_and_stitch (clamping_browser 1920 800 2400) 1920 800 2400 None (Some 2)
           = Inr (Some img)
         \<and> run_scroll_loop (clamping_browser 1920 800 2400) 800 (min 2 (2400 div 800 + 1))
             = Inr shots
         \<and> 1 \<le> length shots \<and> int (length shots) \<le> 2
         \<and> int (height img) = min 2400 (800 * int (length shots))
         \<and> int (height img) \<le> 2 * 800)"
proof -
  let ?d = "clamping_browser 1920 800 2400"
  have h: "(0::int) < 2" by simp
  have z: "(800::int) \<noteq> 0" by simp
  note t = positive_cap_bounds_sections [OF h, where th = 2400 and vh = 800 and d = ?d and vw = 1920 and out = None]
  have p: "scroll_steps 2400 800 (Some 2) = Inr (min 2 (2400 div 800 + 1))"
    by (rule t [THEN conjunct1, THEN mp, OF z])
  then have s: "scroll_steps 2400 800 (Some 2) = Inr 2" by simp
  have r: "run_scroll_loop ?d 800 2 = Inr [viewport_shot 1920 800 0, viewport_shot 1920 800 800]"
    by (simp add: run_scroll_loop_def clamping_simps upt2)
  have c: "combine_screenshots 2400 800 (viewport_shot 1920 800 0) [viewport_shot 1920 800 800]
             = Inr capped_composite"
    by (simp add: combine_screenshots_def image_new_def shot_size capped_composite_def
          blank_canvas_def del: paste_sections.simps)
  have st: "scroll_and_stitch ?d 1920 800 2400 None (Some 2) = Inr (Some capped_composite)"
    by (simp add: scroll_and_stitch_def clamping_simps s r c save_to_def)
  have a1: "(2::int) \<le> 2"
    by (rule t [THEN conjunct2, THEN conjunct1, rule_format, OF s])
  have a2: "int (length [viewport_shot 1920 800 0, viewport_shot 1920 800 800]) \<le> 2"
    by (rule t [THEN conjunct2, THEN conjunct2, THEN conjunct1, rule_format, OF s r])
  have a3: "int (height capped_composite) \<le> 2 * 800"
    by (rule t [THEN conjunct2, THEN conjunct2, THEN conjunct2, THEN conjunct1,
                rule_format, OF st])
  have k1: "(0::int) < 800" and k2: "(0::int) \<le> 2400" by simp_all
  have k3: "\<forall>i y. \<exists>r. scroll_and_read ?d i y = Inr r" by (simp add: clamping_simps)
  have k4: "\<forall>i. \<exists>s. get_screenshot_as_png ?d i = Inr s" by (simp add: clamping_simps)
  have k5: "set_window_size ?d 1920 800 = None" by (simp add: clamping_simps)
  have k6: "\<forall>c. save_to ?d None c = None" by (simp add: save_to_def)
  have a4: "\<exists>img shots.
         scroll_and_stitch ?d 1920 800 2400 None (Some 2) = Inr (Some img)
         \<and> run_scroll_loop ?d 800 (min 2 (2400 div 800 + 1)) = Inr shots
         \<and> 1 \<le> length shots \<and> int (length shots) \<le> 2
         \<and> int (height img) = min 2400 (800 * int (length shots))
         \<and> int (height img) \<le> 2 * 800"
    by (rule t [THEN conjunct2, THEN conjunct2, THEN conjunct2, THEN conjunct2,
                THEN mp, OF k1, THEN mp, OF k2, THEN mp, OF k3, THEN mp, OF k4,
                THEN mp, OF k5, THEN mp, OF k6])
  from h z p s r st a1 a2 a3 k1 k2 k3 k4 k5 k6 a4 show ?thesis by (intro conjI)
qed

subsection \<open>The end of the page\<close>

text \<open>
  C3. In every run of the scroll loop: when the offset read at an iteration \<open>i > 0\<close> of
  the plan equals the offset read at iteration \<open>i - 1\<close> (the one recorded as
  \<open>last_height\<close>), the loop stops before it takes a screenshot at iteration \<open>i\<close>:
  \<^item> the run, and with it what the scroll and stitch path returns, is the same whatever
    \<open>get_screenshot_as_png\<close> would answer from iteration \<open>i\<close> on, an exception included;
  \<^item> the loop returns normally as soon as the steps before \<open>i\<close> succeed;
  \<^item> the sections it returns are at most \<open>i\<close>, strictly fewer than the planned steps,
    and each is the screenshot of its own iteration, all of them before \<open>i\<close>;
  \<^item> the image of the scroll and stitch path is combined from exactly that list, so no
    section of the repeated offset is appended or pasted.
\<close>

theorem scroll_loop_stops_at_repeated_offset:
  assumes "0 < i" and "int i < steps"
    and "scroll_and_read d i (int i * vh) = Inr v"
    and "scroll_and_read d (i - 1) (int (i - 1) * vh) = Inr v"
  shows "((\<forall>j < i. g j = get_screenshot_as_png d j) \<longrightarrow>
            run_scroll_loop (d\<lparr>get_screenshot_as_png := g\<rparr>) vh steps = run_scroll_loop d vh steps
            \<and> (scroll_steps th vh max_scroll = Inr steps \<longrightarrow>
                 scroll_and_stitch (d\<lparr>get_screenshot_as_png := g\<rparr>) vw vh th out max_scroll
                   = scroll_and_stitch d vw vh th out max_scroll))
     \<and> ((\<forall>j < i. (\<exists>r. scroll_and_read d j (int j * vh) = Inr r)
                  \<and> (\<exists>s. get_screenshot_as_png d j = Inr s)) \<longrightarrow>
            (\<exists>shots. run_scroll_loop d vh steps = Inr shots))
     \<and> (run_scroll_loop d vh steps = Inr shots \<longrightarrow>
            length shots \<le> i \<and> int (length shots) < steps
            \<and> (\<forall>j < length shots. get_screenshot_as_png d j = Inr (shots ! j)))
     \<and> (scroll_steps th vh max_scroll = Inr steps \<longrightarrow>
          scroll_and_stitch d vw vh th out max_scroll = Inr (Some img) \<longrightarrow>
            (\<exists>first rest. run_scroll_loop d vh steps = Inr (first # rest)
                \<and> length (first # rest) \<le> i
                \<and> combine_screenshots th vh first rest = Inr img))"
proof -
  let ?n = "nat steps"
  have i_lt: "i < ?n" using assms(2) by simp
  have split: "[0..<?n] = [0..<i] @ i # [Suc i..<?n]" by (rule upt_split_at [OF i_lt])
  have link: "if [0..<i] = [] then 0 = v
              else scroll_and_read d (last [0..<i]) (int (last [0..<i]) * vh) = Inr v"
    using assms(1) assms(4) by simp
  have bound: "length shots \<le> i" if r: "run_scroll_loop d vh steps = Inr shots" for shots
  proof -
    have run: "capture_sections d vh ([0..<i] @ i # [Suc i..<?n]) 0 [] = Inr shots"
      using r split by (simp add: run_scroll_loop_def)
    have "length shots \<le> length ([]::image list) + length [0..<i]"
      by (rule capture_sections_stops_at_repeat [OF run assms(1) assms(3) link])
    then show ?thesis by simp
  qed
  have same: "run_scroll_loop (d\<lparr>get_screenshot_as_png := g\<rparr>) vh steps = run_scroll_loop d vh steps"
    if g: "\<forall>j < i. g j = get_screenshot_as_png d j" for g
  proof -
    have "\<forall>p \<in> set [0..<i]. g p = get_screenshot_as_png d p" using g by simp
    from capture_sections_ignores_later_shots [OF assms(1) assms(3) link this]
    show ?thesis unfolding run_scroll_loop_def split .
  qed
  have stitch: "scroll_and_stitch (d\<lparr>get_screenshot_as_png := g\<rparr>) vw vh th out max_scroll
                  = scroll_and_stitch d vw vh th out max_scroll"
    if g: "\<forall>j < i. g j = get_screenshot_as_png d j"
      and s: "scroll_steps th vh max_scroll = Inr steps" for g
  proof -
    have "save_to (d\<lparr>get_screenshot_as_png := g\<rparr>) out c = save_to d out c" for c
      by (simp add: save_to_def split: option.splits)
    then show ?thesis
      using same [OF g] s
      by (simp add: scroll_and_stitch_def split: option.splits sum.splits list.splits)
  qed
  have returns: "\<exists>shots. run_scroll_loop d vh steps = Inr shots"
    if ok: "\<forall>j < i. (\<exists>r. scroll_and_read d j (int j * vh) = Inr r)
                  \<and> (\<exists>s. get_screenshot_as_png d j = Inr s)"
  proof -
    have "\<forall>p \<in> set [0..<i]. (\<exists>r. scroll_and_read d p (int p * vh) = Inr r)
                 \<and> (\<exists>s. get_screenshot_as_png d p = Inr s)"
      using ok by simp
    from capture_sections_returns_at_repeat [OF assms(1) assms(3) link this]
    show ?thesis unfolding run_scroll_loop_def split .
  qed
  have content: "\<forall>j < length shots. get_screenshot_as_png d j = Inr (shots ! j)"
    if r: "run_scroll_loop d vh steps = Inr shots" for shots
  proof -
    from r have "capture_sections d vh [0..<?n] 0 [] = Inr shots"
      by (simp add: run_scroll_loop_def)
    from capture_sections_extends [OF this] obtain new where
      n: "shots = [] @ new" and
      t: "map (get_screenshot_as_png d) (take (length new) [0..<?n]) = map Inr new"
      by blast
    have tk: "take (length new) [0..<?n] = [0..<length shots]"
      using n bound [OF r] i_lt by simp
    have m: "map (get_screenshot_as_png d) [0..<length shots] = map Inr shots"
      using t n unfolding tk by simp
    show ?thesis
    proof (intro allI impI)
      fix j assume j: "j < length shots"
      have "map (get_screenshot_as_png d) [0..<length shots] ! j = map Inr shots ! j"
        using m by simp
      then show "get_screenshot_as_png d j = Inr (shots ! j)" using j by simp
    qed
  qed
  have composite: "\<exists>first rest. run_scroll_loop d vh steps = Inr (first # rest)
                \<and> length (first # rest) \<le> i
                \<and> combine_screenshots th vh first rest = Inr img"
    if s: "scroll_steps th vh max_scroll = Inr steps"
      and st: "scroll_and_stitch d vw vh th out max_scroll = Inr (Some img)"
  proof -
    from st s obtain first rest where
      r: "run_scroll_loop d vh steps = Inr (first # rest)" and
      c: "combine_screenshots th vh first rest = Inr img"
      by (auto simp: scroll_and_stitch_def split: option.splits sum.splits list.splits)
    from bound [OF r] r c show ?thesis by blast
  qed
  show ?thesis
  proof (intro conjI impI)
    assume g: "\<forall>j < i. g j = get_screenshot_as_png d j"
    show "run_scroll_loop (d\<lparr>get_screenshot_as_png := g\<rparr>) vh steps = run_scroll_loop d vh steps"
      by (rule same [OF g])
    assume s: "scroll_steps th vh max_scroll = Inr steps"
    show "scroll_and_stitch (d\<lparr>get_screenshot_as_png := g\<rparr>) vw vh th out max_scroll
            = scroll_and_stitch d vw vh th out max_scroll"
      by (rule stitch [OF g s])
  next
    assume "\<forall>j < i. (\<exists>r. scroll_and_read d j (int j * vh) = Inr r)
                  \<and> (\<exists>s. get_screenshot_as_png d j = Inr s)"
    then show "\<exists>shots. run_scroll_loop d vh steps = Inr shots" by (rule returns)
  next
    assume r: "run_scroll_loop d vh steps = Inr shots"
    show "length shots \<le> i" by (rule bound [OF r])
    show "int (length shots) < steps" using bound [OF r] assms(2) by simp
    show "\<forall>j < length shots. get_screenshot_as_png d j = Inr (shots ! j)"
      by (rule content [OF r])
  next
    assume "scroll_steps th vh max_scroll = Inr steps"
      and "scroll_and_stitch d vw vh th out max_scroll = Inr (Some img)"
    then show "\<exists>first rest. run_scroll_loop d vh steps = Inr (first # rest)
                \<and> length (first # rest) \<le> i
                \<and> combine_screenshots th vh first rest = Inr img"
      by (rule composite)
  qed
qed

theorem scroll_loop_stops_at_repeated_offset_witness:
  "(0::nat) < 2 \<and> int 2 < 3
   \<and> scroll_and_read (clamping_browser 1920 800 1600) 2 (int 2 * 800) = Inr 800
   \<and> scroll_and_read (clamping_browser 1920 800 1600) (2 - 1) (int (2 - 1) * 800) = Inr 800
   \<and> camera_failing_from 2 (clamping_browser 1920 800 1600) 0
       = get_screenshot_as_png (clamping_browser 1920 800 1600) 0
   \<and> camera_failing_from 2 (clamping_browser 1920 800 1600) 1
       = get_screenshot_as_png (clamping_browser 1920 800 1600) 1
   \<and> camera_failing_from 2 (clamping_browser 1920 800 1600) 2 = Inl WebDriverException
   \<and> scroll_steps 1600 800 None = Inr 3
   \<and> run_scroll_loop
        ((clamping_browser 1920 800 1600)
           \<lparr>get_screenshot_as_png := camera_failing_from 2 (clamping_browser 1920 800 1600)\<rparr>)
        800 3
       = Inr [viewport_shot 1920 800 0, viewport_shot 1920 800 800]
   \<and> scroll_and_stitch
        ((clamping_browser 1920 800 1600)
           \<lparr>get_screenshot_as_png := camera_failing_from 2 (clamping_browser 1920 800 1600)\<rparr>)
        1920 800 1600 None None
       = scroll_and_stitch (clamping_browser 1920 800 1600) 1920 800 1600 None None
   \<and> run_scroll_loop (clamping_browser 1920 800 1600) 800 3
       = Inr [viewport_shot 1920 800 0, viewport_shot 1920 800 800]
   \<and> length [viewport_shot 1920 800 0, viewport_shot 1920 800 800] \<le> 2
   \<and> int (length [viewport_shot 1920 800 0, viewport_shot 1920 800 800]) < 3
   \<and> get_screenshot_as_png (clamping_browser 1920 800 1600) 0
       = Inr ([viewport_shot 1920 800 0, viewport_shot 1920 800 800] ! 0)
   \<and> get_screenshot_as_png (clamping_browser 1920 800 1600) 1
       = Inr ([viewport_shot 1920 800 0, viewport_shot 1920 800 800] ! 1)
   \<and> (\<exists>shots. run_scroll_loop (clamping_browser 1920 800 1600) 800 3 = Inr shots)
   \<and> scroll_and_stitch (clamping_browser 1920 800 1600) 1920 800 1600 None None
       = Inr (Some capped_composite)
   \<and> (\<exists>first rest. run_scroll_loop (clamping_browser 1920 800 1600) 800 3 = Inr (first # rest)
          \<and> length (first # rest) \<le> 2
          \<and> combine_screenshots 1600 800 first rest = Inr capped_composite)"
proof -
  let ?d = "clamping_browser 1920 800 1600"
  let ?g = "camera_failing_from 2 ?d"
  let ?shots = "[viewport_shot 1920 800 0, viewport_shot 1920 800 800]"
  have h1: "(0::nat) < 2" by simp
  have h2: "int 2 < 3" by simp
  have h3: "scroll_and_read ?d 2 (int 2 * 800) = Inr 800" by (simp add: clamping_simps)
  have h4: "scroll_and_read ?d (2 - 1) (int (2 - 1) * 800) = Inr 800"
    by (simp add: clamping_simps)
  have g0: "?g 0 = get_screenshot_as_png ?d 0" and g1: "?g 1 = get_screenshot_as_png ?d 1"
    and g2: "?g 2 = Inl WebDriverException"
    by (simp_all add: camera_failing_from_def)
  have g: "\<forall>j < 2. ?g j = get_screenshot_as_png ?d j"
    by (simp add: camera_failing_from_def)
  have s: "scroll_steps 1600 800 None = Inr 3" by (simp add: scroll_steps_def)
  have r: "run_scroll_loop ?d 800 3 = Inr ?shots"
    by (simp add: run_scroll_loop_def clamping_simps upt3)
  note t = scroll_loop_stops_at_repeated_offset [OF h1 h2 h3 h4, where g = ?g and th = 1600 and max_scroll = None
                    and vw = 1920 and out = None and shots = ?shots
                    and img = capped_composite]
  note ta = t [THEN conjunct1, THEN mp, OF g]
  have a: "run_scroll_loop (?d\<lparr>get_screenshot_as_png := ?g\<rparr>) 800 3
             = run_scroll_loop ?d 800 3"
    by (rule ta [THEN conjunct1])
  have b: "scroll_and_stitch (?d\<lparr>get_screenshot_as_png := ?g\<rparr>) 1920 800 1600
             None None = scroll_and_stitch ?d 1920 800 1600 None None"
    by (rule ta [THEN conjunct2, THEN mp, OF s])
  have c: "length ?shots \<le> 2 \<and> int (length ?shots) < 3
          \<and> (\<forall>j < length ?shots. get_screenshot_as_png ?d j = Inr (?shots ! j))"
    by (rule t [THEN conjunct2, THEN conjunct2, THEN conjunct1, THEN mp, OF r])
  have c1: "length ?shots \<le> 2" by (rule c [THEN conjunct1])
  have c2: "int (length ?shots) < 3" by (rule c [THEN conjunct2, THEN conjunct1])
  have c3: "\<forall>j < length ?shots. get_screenshot_as_png ?d j = Inr (?shots ! j)"
    by (rule c [THEN conjunct2, THEN conjunct2])
  from c3 have k0: "get_screenshot_as_png ?d 0 = Inr (?shots ! 0)"
    and k1: "get_screenshot_as_png ?d 1 = Inr (?shots ! 1)"
    by simp_all
  from a r have a': "run_scroll_loop (?d\<lparr>get_screenshot_as_png := ?g\<rparr>) 800 3 = Inr ?shots"
    by simp
  have ok: "\<forall>j < 2. (\<exists>r. scroll_and_read ?d j (int j * 800) = Inr r)
                    \<and> (\<exists>s. get_screenshot_as_png ?d j = Inr s)"
    by (simp add: clamping_simps)
  have e: "\<exists>shots. run_scroll_loop ?d 800 3 = Inr shots"
    by (rule t [THEN conjunct2, THEN conjunct1, THEN mp, OF ok])
  have cmb: "combine_screenshots 1600 800 (viewport_shot 1920 800 0) [viewport_shot 1920 800 800]
               = Inr capped_composite"
    by (simp add: combine_screenshots_def image_new_def shot_size capped_composite_def
          blank_canvas_def del: paste_sections.simps)
  have st: "scroll_and_stitch ?d 1920 800 1600 None None = Inr (Some capped_composite)"
    by (simp add: scroll_and_stitch_def clamping_simps s r cmb save_to_def)
  have f: "\<exists>first rest. run_scroll_loop ?d 800 3 = Inr (first # rest)
             \<and> length (first # rest) \<le> 2
             \<and> combine_screenshots 1600 800 first rest = Inr capped_composite"
    by (rule t [THEN conjunct2, THEN conjunct2, THEN conjunct2, THEN mp, OF s, THEN mp, OF st])
  from h1 h2 h3 h4 g0 g1 g2 s a' b r c1 c2 k0 k1 e st f show ?thesis by (intro conjI)
qed

end
